theory Spec2Isabelle
  imports Main "HOL-Library.Word" "HOL-Library.Multiset"
begin

unbundle bit_operations_syntax

section \<open>Data model of SARC.py\<close>

text \<open>
  Python values are modelled as follows.
  \<^item> A \<^verbatim>\<open>bytes\<close> object is a list of 8-bit words.
  \<^item> A \<^verbatim>\<open>str\<close> is the list of its Unicode code points, so that \<^verbatim>\<open>ord(char)\<close> is the
    list element itself; \<open>str\<close> turns an Isabelle string literal into such a list.
  \<^item> A Python \<^verbatim>\<open>int\<close> is an \<open>int\<close>; bitwise operators on negative values are two's
    complement in both languages.
  \<^item> The \<^verbatim>\<open>endianness\<close> attribute holds the struct prefix \<^verbatim>\<open>'>'\<close> or \<^verbatim>\<open>'<'\<close>.
  \<^item> \<^verbatim>\<open>File\<close> and \<^verbatim>\<open>Folder\<close> objects form a tree; a \<^verbatim>\<open>contents\<close> set is the list of its
    members in iteration order, and \<^verbatim>\<open>add\<close> of a fresh object appends to it.
\<close>

type_synonym byte = "8 word"
type_synonym pystr = "nat list"

definition str :: "string \<Rightarrow> pystr" where
  "str s = map of_char s"

datatype endian = BigEndian | LittleEndian

datatype error =
    KeyError | IndexError | RuntimeError | StructError
  | UnicodeEncodeError | UnicodeDecodeError | ValueError int

datatype entry = File pystr "byte list" | Folder pystr "entry list"

fun name :: "entry \<Rightarrow> pystr" where
  "name (File n d) = n"
| "name (Folder n c) = n"

fun isFolder :: "entry \<Rightarrow> bool" where
  "isFolder (File n d) = False"
| "isFolder (Folder n c) = True"

fun folder_contents :: "entry \<Rightarrow> entry list" where
  "folder_contents (File n d) = []"
| "folder_contents (Folder n c) = c"

fun file_data :: "entry \<Rightarrow> byte list" where
  "file_data (File n d) = d"
| "file_data (Folder n c) = []"

record archive =
  contents :: "entry list"
  endianness :: endian
  hashMultiplier :: int

subsection \<open>struct.pack and struct.unpack\<close>

text \<open>
  \<^verbatim>\<open>struct.pack(endianness + 'I', x)\<close> raises \<^verbatim>\<open>struct.error\<close> unless \<open>0 \<le> x < 2^32\<close>
  (\<^verbatim>\<open>'H'\<close>: \<open>2^16\<close>); \<^verbatim>\<open>struct.unpack\<close> raises it unless the buffer has exactly the
  size of the format.
\<close>

definition le_bytes4 :: "int \<Rightarrow> byte list" where
  "le_bytes4 x = [word_of_int x, word_of_int (x div 2 ^ 8),
                  word_of_int (x div 2 ^ 16), word_of_int (x div 2 ^ 24)]"

definition le_bytes2 :: "int \<Rightarrow> byte list" where
  "le_bytes2 x = [word_of_int x, word_of_int (x div 2 ^ 8)]"

fun le_value :: "byte list \<Rightarrow> int" where
  "le_value [] = 0"
| "le_value (b # bs) = uint b + 2 ^ 8 * le_value bs"

definition order_bytes :: "endian \<Rightarrow> byte list \<Rightarrow> byte list" where
  "order_bytes e bs = (case e of BigEndian \<Rightarrow> rev bs | LittleEndian \<Rightarrow> bs)"

definition pack_I :: "endian \<Rightarrow> int \<Rightarrow> error + byte list" where
  "pack_I e x = (if 0 \<le> x \<and> x < 2 ^ 32 then Inr (order_bytes e (le_bytes4 x))
                 else Inl StructError)"

definition pack_H :: "endian \<Rightarrow> int \<Rightarrow> error + byte list" where
  "pack_H e x = (if 0 \<le> x \<and> x < 2 ^ 16 then Inr (order_bytes e (le_bytes2 x))
                 else Inl StructError)"

definition unpack_I :: "endian \<Rightarrow> byte list \<Rightarrow> error + int" where
  "unpack_I e bs = (if length bs = 4 then Inr (le_value (order_bytes e bs))
                    else Inl StructError)"

definition unpack_H :: "endian \<Rightarrow> byte list \<Rightarrow> error + int" where
  "unpack_H e bs = (if length bs = 2 then Inr (le_value (order_bytes e bs))
                    else Inl StructError)"

text \<open>The slice \<^verbatim>\<open>data[a:b]\<close> for non-negative \<open>a\<close> and \<open>b\<close>: Python clamps, never raises.\<close>

definition slice :: "'a list \<Rightarrow> nat \<Rightarrow> nat \<Rightarrow> 'a list" where
  "slice xs a b = take (b - a) (drop a xs)"

subsection \<open>The hash function\<close>

text \<open>
  \<^verbatim>\<open>filenameHash\<close>: the loop \<^verbatim>\<open>result = result * multiplier + ord(char); result &= 0xFFFFFFFF\<close>
  over the characters from the left, then \<^verbatim>\<open>struct.pack(endianness + 'I', result)\<close>.
\<close>

fun hash_loop :: "int \<Rightarrow> int \<Rightarrow> pystr \<Rightarrow> int" where
  "hash_loop multiplier result [] = result"
| "hash_loop multiplier result (char # filename) =
     hash_loop multiplier ((result * multiplier + int char) AND 0xFFFFFFFF) filename"

definition filenameHash :: "pystr \<Rightarrow> endian \<Rightarrow> int \<Rightarrow> error + byte list" where
  "filenameHash filename e multiplier = pack_I e (hash_loop multiplier 0 filename)"

text \<open>The hash as the specification words it: a left fold with reduction modulo \<open>2^32\<close>.\<close>

definition spec_hash :: "pystr \<Rightarrow> int \<Rightarrow> int" where
  "spec_hash nm multiplier =
     foldl (\<lambda>result char. (result * multiplier + int char) mod 2 ^ 32) 0 nm"

subsection \<open>The tree model: path accessors of FileArchive\<close>

text \<open>\<^verbatim>\<open>str.replace(a, b)\<close> for single characters, \<^verbatim>\<open>str.split(sep)\<close> and \<^verbatim>\<open>sep.join(parts)\<close>.\<close>

definition str_replace :: "nat \<Rightarrow> nat \<Rightarrow> pystr \<Rightarrow> pystr" where
  "str_replace a b s = map (\<lambda>c. if c = a then b else c) s"

fun str_split :: "nat \<Rightarrow> pystr \<Rightarrow> pystr list" where
  "str_split sep [] = [[]]"
| "str_split sep (c # cs) =
     (if c = sep then [] # str_split sep cs
      else (c # hd (str_split sep cs)) # tl (str_split sep cs))"

fun str_join :: "pystr \<Rightarrow> pystr list \<Rightarrow> pystr" where
  "str_join sep [] = []"
| "str_join sep [p] = p"
| "str_join sep (p # q # ps) = p @ sep @ str_join sep (q # ps)"

text \<open>
  The inner loop of every accessor: the first member of the container, in iteration
  order, that is a \<^verbatim>\<open>Folder\<close> with the wanted name.
\<close>

definition find_folder :: "pystr \<Rightarrow> entry list \<Rightarrow> entry option" where
  "find_folder folderName cur = find (\<lambda>lookObj. isFolder lookObj \<and> name lookObj = folderName) cur"

text \<open>
  Folders are mutated in place; in the model the changed contents of the first folder
  of that name are written back into its parent.
\<close>

fun update_folder :: "pystr \<Rightarrow> entry list \<Rightarrow> entry list \<Rightarrow> entry list" where
  "update_folder folderName c [] = []"
| "update_folder folderName c (x # xs) =
     (if isFolder x \<and> name x = folderName then Folder (name x) c # xs
      else x # update_folder folderName c xs)"

text \<open>\<^verbatim>\<open>__getitem__\<close>: walks \<^verbatim>\<open>folderStructure[:-1]\<close>, then looks the last segment up.\<close>

fun get_walk :: "pystr list \<Rightarrow> entry list \<Rightarrow> error + entry list" where
  "get_walk [] cur = Inr cur"
| "get_walk (folderName # rest) cur =
     (case find_folder folderName cur of
        None \<Rightarrow> Inl KeyError
      | Some lookObj \<Rightarrow> get_walk rest (folder_contents lookObj))"

definition getitem :: "archive \<Rightarrow> pystr \<Rightarrow> error + entry" where
  "getitem a key =
     (let folderStructure = str_split 0x2F (str_replace 0x5C 0x2F key) in
      case get_walk (butlast folderStructure) (contents a) of
        Inl e \<Rightarrow> Inl e
      | Inr cur \<Rightarrow>
          (case find (\<lambda>file. name file = last folderStructure) cur of
             None \<Rightarrow> Inl KeyError
           | Some file \<Rightarrow> Inr file))"

text \<open>
  \<^verbatim>\<open>__setitem__\<close>. The value is a \<^verbatim>\<open>File\<close> or a \<^verbatim>\<open>Folder\<close> by its type, so the
  \<^verbatim>\<open>TypeError\<close> branch is not reachable. The statement
  \<^verbatim>\<open>File.name = folderStructure[-1]\<close> assigns to the attribute \<^verbatim>\<open>name\<close> of the class
  \<^verbatim>\<open>File\<close>; every \<^verbatim>\<open>File\<close> and \<^verbatim>\<open>Folder\<close> object has its own \<^verbatim>\<open>name\<close> from
  \<^verbatim>\<open>__init__\<close>, which is the one every later read finds, so no entry changes: the
  assigned value is returned as the first component of the result. The walk is over
  \<^verbatim>\<open>folderStructure[1:]\<close>, creating the folders that are missing. The last loop compares
  each member's name with the whole \<^verbatim>\<open>key\<close>; removing a member from a set that is
  being iterated makes the next step of the iteration raise \<^verbatim>\<open>RuntimeError\<close>, with the
  member removed and the value not added. The result carries the contents as they
  are left and the exception raised, if any.
\<close>

fun set_walk :: "pystr list \<Rightarrow> pystr \<Rightarrow> entry \<Rightarrow> entry list \<Rightarrow> entry list \<times> error option" where
  "set_walk [] key val cur =
     (case find (\<lambda>file. name file = key) cur of
        Some file \<Rightarrow> (remove1 file cur, Some RuntimeError)
      | None \<Rightarrow> (cur @ [val], None))"
| "set_walk (folderName # rest) key val cur =
     (case find_folder folderName cur of
        Some lookObj \<Rightarrow>
          (let (c, r) = set_walk rest key val (folder_contents lookObj)
           in (update_folder folderName c cur, r))
      | None \<Rightarrow>
          (let (c, r) = set_walk rest key val []
           in (cur @ [Folder folderName c], r)))"

definition setitem :: "archive \<Rightarrow> pystr \<Rightarrow> entry \<Rightarrow> pystr \<times> archive \<times> error option" where
  "setitem a key val =
     (let folderStructure = str_split 0x2F (str_replace 0x5C 0x2F key);
          File_name = last folderStructure;
          (c, r) = set_walk (tl folderStructure) key val (contents a)
      in (File_name, a\<lparr>contents := c\<rparr>, r))"

text \<open>
  \<^verbatim>\<open>__delitem__\<close>: walks \<^verbatim>\<open>folderStructure[1:]\<close>, then removes the first member whose
  name equals the whole \<^verbatim>\<open>key\<close> and returns at once; every \<^verbatim>\<open>KeyError\<close> is raised
  before anything has been changed.
\<close>

fun del_walk :: "pystr list \<Rightarrow> pystr \<Rightarrow> entry list \<Rightarrow> error + entry list" where
  "del_walk [] key cur =
     (case find (\<lambda>file. name file = key) cur of
        Some file \<Rightarrow> Inr (remove1 file cur)
      | None \<Rightarrow> Inl KeyError)"
| "del_walk (folderName # rest) key cur =
     (case find_folder folderName cur of
        None \<Rightarrow> Inl KeyError
      | Some lookObj \<Rightarrow>
          (case del_walk rest key (folder_contents lookObj) of
             Inl e \<Rightarrow> Inl e
           | Inr c \<Rightarrow> Inr (update_folder folderName c cur)))"

definition delitem :: "archive \<Rightarrow> pystr \<Rightarrow> error + archive" where
  "delitem a key =
     (let folderStructure = str_split 0x2F (str_replace 0x5C 0x2F key) in
      case del_walk (tl folderStructure) key (contents a) of
        Inl e \<Rightarrow> Inl e
      | Inr c \<Rightarrow> Inr (a\<lparr>contents := c\<rparr>))"

text \<open>The constructor \<^verbatim>\<open>SARC_Archive(endianness=e, hashMultiplier=m)\<close> without data.\<close>

definition new_archive :: "endian \<Rightarrow> int \<Rightarrow> archive" where
  "new_archive e m = \<lparr>contents = [], endianness = e, hashMultiplier = m\<rparr>"

subsection \<open>Exceptions in sequence\<close>

text \<open>A raised exception ends the evaluation: these combinators pass the first one on.\<close>

definition bind_e :: "error + 'a \<Rightarrow> ('a \<Rightarrow> error + 'b) \<Rightarrow> error + 'b" where
  "bind_e r f = (case r of Inl e \<Rightarrow> Inl e | Inr x \<Rightarrow> f x)"

definition append_e :: "error + 'a list \<Rightarrow> error + 'a list \<Rightarrow> error + 'a list" where
  "append_e r s = (case r of Inl e \<Rightarrow> Inl e
                   | Inr xs \<Rightarrow> (case s of Inl e \<Rightarrow> Inl e | Inr ys \<Rightarrow> Inr (xs @ ys)))"

fun map_e :: "('a \<Rightarrow> error + 'b) \<Rightarrow> 'a list \<Rightarrow> error + 'b list" where
  "map_e f [] = Inr []"
| "map_e f (x # xs) =
     (case f x of Inl e \<Rightarrow> Inl e
      | Inr y \<Rightarrow> (case map_e f xs of Inl e \<Rightarrow> Inl e | Inr ys \<Rightarrow> Inr (y # ys)))"

subsection \<open>UTF-8\<close>

text \<open>
  \<^verbatim>\<open>str.encode('utf-8')\<close> raises \<^verbatim>\<open>UnicodeEncodeError\<close> on a surrogate code point;
  code points from \<open>0x110000\<close> on do not occur in a Python string.
  \<^verbatim>\<open>bytes.decode('utf-8')\<close> is the strict decoder: it raises \<^verbatim>\<open>UnicodeDecodeError\<close>
  on a truncated or overlong sequence, on an encoded surrogate and beyond \<open>0x10FFFF\<close>.
\<close>

definition utf8_char :: "nat \<Rightarrow> nat list option" where
  "utf8_char c =
     (if c < 0x80 then Some [c]
      else if c < 0x800 then Some [0xC0 + c div 64, 0x80 + c mod 64]
      else if c < 0x10000 then
        (if 0xD800 \<le> c \<and> c < 0xE000 then None
         else Some [0xE0 + c div 4096, 0x80 + c div 64 mod 64, 0x80 + c mod 64])
      else if c < 0x110000 then
        Some [0xF0 + c div 262144, 0x80 + c div 4096 mod 64, 0x80 + c div 64 mod 64,
              0x80 + c mod 64]
      else None)"

fun utf8_encode :: "pystr \<Rightarrow> error + byte list" where
  "utf8_encode [] = Inr []"
| "utf8_encode (c # cs) =
     (case utf8_char c of
        None \<Rightarrow> Inl UnicodeEncodeError
      | Some bs \<Rightarrow> append_e (Inr (map of_nat bs)) (utf8_encode cs))"

definition cont_byte :: "nat \<Rightarrow> bool" where
  "cont_byte b = (0x80 \<le> b \<and> b < 0xC0)"

fun utf8_dec :: "nat list \<Rightarrow> pystr option" where
  "utf8_dec [] = Some []"
| "utf8_dec (b0 # bs) =
     (if b0 < 0x80 then map_option ((#) b0) (utf8_dec bs)
      else if 0xC2 \<le> b0 \<and> b0 < 0xE0 then
        (case bs of
           b1 # r \<Rightarrow>
             if cont_byte b1
             then map_option ((#) ((b0 - 0xC0) * 64 + (b1 - 0x80))) (utf8_dec r)
             else None
         | _ \<Rightarrow> None)
      else if 0xE0 \<le> b0 \<and> b0 < 0xF0 then
        (case bs of
           b1 # b2 # r \<Rightarrow>
             if cont_byte b1 \<and> cont_byte b2
                \<and> (if b0 = 0xE0 then 0xA0 \<le> b1 else True)
                \<and> (if b0 = 0xED then b1 < 0xA0 else True)
             then map_option
                    ((#) ((b0 - 0xE0) * 4096 + (b1 - 0x80) * 64 + (b2 - 0x80)))
                    (utf8_dec r)
             else None
         | _ \<Rightarrow> None)
      else if 0xF0 \<le> b0 \<and> b0 < 0xF5 then
        (case bs of
           b1 # b2 # b3 # r \<Rightarrow>
             if cont_byte b1 \<and> cont_byte b2 \<and> cont_byte b3
                \<and> (if b0 = 0xF0 then 0x90 \<le> b1 else True)
                \<and> (if b0 = 0xF4 then b1 < 0x90 else True)
             then map_option
                    ((#) ((b0 - 0xF0) * 262144 + (b1 - 0x80) * 4096 + (b2 - 0x80) * 64
                          + (b3 - 0x80)))
                    (utf8_dec r)
             else None
         | _ \<Rightarrow> None)
      else None)"

definition utf8_decode :: "byte list \<Rightarrow> error + pystr" where
  "utf8_decode bs = (case utf8_dec (map unat bs) of
                       None \<Rightarrow> Inl UnicodeDecodeError | Some s \<Rightarrow> Inr s)"

subsection \<open>The encoder: SARC_Archive.save\<close>

text \<open>
  \<^verbatim>\<open>addToFlatList(folder, path)\<close>, given the folder's contents: backslashes of the path
  become slashes, \<^verbatim>\<open>path[-1]\<close> raises \<^verbatim>\<open>IndexError\<close> on an empty path, a slash is
  appended unless the path ends in one, and each member is appended to the flat list
  or descended into.
\<close>

fun addToFlatList :: "entry list \<Rightarrow> pystr \<Rightarrow> error + (pystr \<times> entry) list"
and flat_members :: "entry list \<Rightarrow> pystr \<Rightarrow> error + (pystr \<times> entry) list" where
  "addToFlatList c path0 =
     (let path1 = (if 0x5C \<in> set path0 then str_join [0x2F] (str_split 0x5C path0) else path0)
      in if path1 = [] then Inl IndexError
         else flat_members c (if last path1 \<noteq> 0x2F then path1 @ [0x2F] else path1))"
| "flat_members [] path = Inr []"
| "flat_members (File n d # rest) path =
     append_e (Inr [(path @ n, File n d)]) (flat_members rest path)"
| "flat_members (Folder n c # rest) path =
     append_e (addToFlatList c (path @ n)) (flat_members rest path)"

fun flatten_root :: "entry list \<Rightarrow> error + (pystr \<times> entry) list" where
  "flatten_root [] = Inr []"
| "flatten_root (File n d # rest) = append_e (Inr [(n, File n d)]) (flatten_root rest)"
| "flatten_root (Folder n c # rest) = append_e (addToFlatList c n) (flatten_root rest)"

text \<open>
  \<^verbatim>\<open>flatList.sort(key=...)\<close>: the key of each pair is computed first, as
  \<^verbatim>\<open>struct.unpack\<close> of the packed hash of its path, and the list is sorted stably by it.
\<close>

definition sort_key_of :: "endian \<Rightarrow> int \<Rightarrow> pystr \<times> entry \<Rightarrow> error + int" where
  "sort_key_of e m filetuple = bind_e (filenameHash (fst filetuple) e m) (unpack_I e)"

definition sort_flatList ::
  "endian \<Rightarrow> int \<Rightarrow> (pystr \<times> entry) list \<Rightarrow> error + (pystr \<times> entry) list" where
  "sort_flatList e m flatList =
     bind_e (map_e (sort_key_of e m) flatList)
       (\<lambda>keys. Inr (map snd (sort_key fst (zip keys flatList))))"

text \<open>
  The file names table: each path's offset is the length of the table so far; the
  path is appended in UTF-8, then \<open>4 - len mod 4\<close> zero bytes.
\<close>

fun names_loop :: "(pystr \<times> entry) list \<Rightarrow> byte list \<Rightarrow> error + (nat list \<times> byte list)" where
  "names_loop [] fileNamesTable = Inr ([], fileNamesTable)"
| "names_loop (filetuple # rest) fileNamesTable =
     (case utf8_encode (fst filetuple) of
        Inl e \<Rightarrow> Inl e
      | Inr enc \<Rightarrow>
          (let t1 = fileNamesTable @ enc;
               t2 = t1 @ replicate (4 - length t1 mod 4) 0
           in case names_loop rest t2 of
                Inl e \<Rightarrow> Inl e
              | Inr (offs, t) \<Rightarrow> Inr (length fileNamesTable # offs, t)))"

definition round_up :: "int \<Rightarrow> int \<Rightarrow> int" where
  "round_up x y = ((x - 1) OR (y - 1)) + 1"

text \<open>
  The beginning-of-data offset, from the number of files, the length of the names
  table and the caller's argument.
\<close>

definition choose_dataStartOffset :: "nat \<Rightarrow> nat \<Rightarrow> int \<Rightarrow> int" where
  "choose_dataStartOffset nfiles namesLen dataStartOffset =
     (let dataStartOffset_min = round_up (0x20 + 0x10 * int nfiles + 0x08 + int namesLen) 0x10;
          d = max dataStartOffset_min (round_up dataStartOffset 0x10)
      in if d = dataStartOffset_min then round_up d 0x200 else d)"

text \<open>
  The alignment loop \<^verbatim>\<open>while alignment == 0: alignment = dataStartOffset & (0xF0 << numZeros);
  numZeros += 1\<close>. It does not return when no bit of the offset from bit 4 upwards is set:
  the value \<open>None\<close>.
\<close>

partial_function (option) alignment_loop :: "int \<Rightarrow> int \<Rightarrow> nat \<Rightarrow> int option" where
  "alignment_loop dataStartOffset alignment numZeros =
     (if alignment = 0
      then alignment_loop dataStartOffset (dataStartOffset AND push_bit numZeros 0xF0)
             (numZeros + 1)
      else Some alignment)"

declare alignment_loop.simps [code]

definition get_alignment :: "int \<Rightarrow> int option" where
  "get_alignment dataStartOffset = alignment_loop dataStartOffset (dataStartOffset AND 0xF0) 1"

text \<open>
  The file data table: before every file but the first, zero bytes up to
  \<^verbatim>\<open>round_up(len(fileDataTable), alignment)\<close>; the file's offset is the length then.
\<close>

fun data_loop :: "int \<Rightarrow> entry list \<Rightarrow> nat \<Rightarrow> byte list \<Rightarrow> nat list \<times> byte list" where
  "data_loop alignment [] idx fileDataTable = ([], fileDataTable)"
| "data_loop alignment (file # rest) idx fileDataTable =
     (let t1 = (if idx > 0
                then fileDataTable @
                     replicate (nat (round_up (int (length fileDataTable)) alignment
                                     - int (length fileDataTable))) 0
                else fileDataTable);
          (offs, t) = data_loop alignment rest (idx + 1) (t1 @ file_data file)
      in (length t1 # offs, t))"

definition magic_SARC :: "byte list" where "magic_SARC = [0x53, 0x41, 0x52, 0x43]"
definition magic_SFAT :: "byte list" where "magic_SFAT = [0x53, 0x46, 0x41, 0x54]"
definition magic_SFNT :: "byte list" where "magic_SFNT = [0x53, 0x46, 0x4E, 0x54]"

definition sarcHead :: "endian \<Rightarrow> int \<Rightarrow> int \<Rightarrow> error + byte list" where
  "sarcHead e totalFileLen dataStartOffset =
     bind_e (pack_H e 0x14) (\<lambda>hl.
     bind_e (pack_I e totalFileLen) (\<lambda>fl.
     bind_e (pack_I e dataStartOffset) (\<lambda>ds.
       Inr (magic_SARC @ hl
            @ (if e = BigEndian then [0xFE, 0xFF] else [0xFF, 0xFE])
            @ fl @ ds
            @ (if e = BigEndian then [1, 0, 0, 0] else [0, 1, 0, 0])))))"

definition sfatHead :: "endian \<Rightarrow> nat \<Rightarrow> int \<Rightarrow> error + byte list" where
  "sfatHead e nfiles m =
     bind_e (pack_H e 0x0C) (\<lambda>hl.
     bind_e (pack_H e (int nfiles)) (\<lambda>n.
     bind_e (pack_I e m) (\<lambda>hm.
       Inr (magic_SFAT @ hl @ n @ hm))))"

definition sfat_node ::
  "endian \<Rightarrow> int \<Rightarrow> (pystr \<times> entry) \<times> nat \<times> nat \<Rightarrow> error + byte list" where
  "sfat_node e m x =
     (case x of ((filepath, file), filenameoffset, filedataoffset) \<Rightarrow>
        bind_e (filenameHash filepath e m) (\<lambda>h.
        bind_e (pack_I e ((int filenameoffset div 4) OR 0x1000000)) (\<lambda>no.
        bind_e (pack_I e (int filedataoffset)) (\<lambda>st.
        bind_e (pack_I e (int filedataoffset + int (length (file_data file)))) (\<lambda>en.
          Inr (h @ no @ st @ en))))))"

definition sfat_nodes ::
  "endian \<Rightarrow> int \<Rightarrow> (pystr \<times> entry) list \<Rightarrow> nat list \<Rightarrow> nat list \<Rightarrow> error + byte list" where
  "sfat_nodes e m flatList nameoffs dataoffs =
     bind_e (map_e (sfat_node e m) (zip flatList (zip nameoffs dataoffs)))
       (\<lambda>nodes. Inr (concat nodes))"

definition sfntHead :: "endian \<Rightarrow> byte list" where
  "sfntHead e = magic_SFNT @ (if e = BigEndian then [0x00, 0x08] else [0x08, 0x00]) @ [0x00, 0x00]"

text \<open>The headers, the padding up to the data offset and the final concatenation.\<close>

definition assemble ::
  "endian \<Rightarrow> int \<Rightarrow> (pystr \<times> entry) list \<Rightarrow> nat list \<Rightarrow> byte list \<Rightarrow> int \<Rightarrow>
   nat list \<Rightarrow> byte list \<Rightarrow> error + byte list" where
  "assemble e m flatList nameoffs fileNamesTable dataStartOffset dataoffs fileDataTable =
     bind_e (sarcHead e (dataStartOffset + int (length fileDataTable)) dataStartOffset) (\<lambda>sarc.
     bind_e (sfatHead e (length flatList) m) (\<lambda>sfath.
     bind_e (sfat_nodes e m flatList nameoffs dataoffs) (\<lambda>sfat.
       (let headerSize = int (length (sarc @ sfath @ sfat @ sfntHead e @ fileNamesTable));
            fileDataTablePadding =
              (if dataStartOffset > headerSize
               then replicate (nat (dataStartOffset - headerSize)) 0 else [])
        in Inr (sarc @ sfath @ sfat @ (sfntHead e @ fileNamesTable)
                @ (fileDataTablePadding @ fileDataTable))))))"

text \<open>
  \<^verbatim>\<open>save(dataStartOffset)\<close>: \<open>None\<close> when the alignment loop does not return, otherwise the
  exception raised or the bytes returned. The archive is not changed.
\<close>

definition save :: "archive \<Rightarrow> int \<Rightarrow> (error + byte list) option" where
  "save a dataStartOffset =
     (case flatten_root (contents a) of
        Inl e \<Rightarrow> Some (Inl e)
      | Inr flatList0 \<Rightarrow>
     (case sort_flatList (endianness a) (hashMultiplier a) flatList0 of
        Inl e \<Rightarrow> Some (Inl e)
      | Inr flatList \<Rightarrow>
     (case names_loop flatList [] of
        Inl e \<Rightarrow> Some (Inl e)
      | Inr (nameoffs, fileNamesTable) \<Rightarrow>
     (let d = choose_dataStartOffset (length flatList) (length fileNamesTable) dataStartOffset
      in case get_alignment d of
           None \<Rightarrow> None
         | Some alignment \<Rightarrow>
             (let (dataoffs, fileDataTable) = data_loop alignment (map snd flatList) 0 []
              in Some (assemble (endianness a) (hashMultiplier a) flatList nameoffs
                         fileNamesTable d dataoffs fileDataTable))))))"

subsection \<open>The decoder: SARC_Archive._load\<close>

text \<open>
  \<^verbatim>\<open>bytes_to_string(data, offset)\<close>: the bytes from \<open>offset\<close> up to the first zero byte, or
  to the end of the data when there is none, decoded as UTF-8.
\<close>

definition bytes_to_string :: "byte list \<Rightarrow> nat \<Rightarrow> error + pystr" where
  "bytes_to_string data offset = utf8_decode (takeWhile (\<lambda>b. b \<noteq> 0) (drop offset data))"

text \<open>
  One SFAT node at \<open>SFATNodeOffset\<close>: the flag byte (\<^verbatim>\<open>data[unkFlagOffset]\<close> raises
  \<^verbatim>\<open>IndexError\<close> beyond the data), the three bytes of the name offset completed by a
  zero byte, the start and the end of the file data. The node keeps
  \<open>(unkFlag, fileNameTableEntryOffset, fileDataStart, fileDataLength)\<close>.
\<close>

definition read_node :: "endian \<Rightarrow> byte list \<Rightarrow> nat \<Rightarrow> error + (byte \<times> int \<times> int \<times> int)" where
  "read_node e data SFATNodeOffset =
     (let unkFlagOffset = (if e = BigEndian then SFATNodeOffset + 4 else SFATNodeOffset + 7);
          fnOffset = (if e = BigEndian then SFATNodeOffset + 5 else SFATNodeOffset + 4)
      in if length data \<le> unkFlagOffset then Inl IndexError
         else
           bind_e (unpack_I e (if e = BigEndian
                               then [0] @ slice data fnOffset (fnOffset + 3)
                               else slice data fnOffset (fnOffset + 3) @ [0]))
             (\<lambda>fileNameTableEntryOffset.
           bind_e (unpack_I e (slice data (SFATNodeOffset + 8) (SFATNodeOffset + 0x0C)))
             (\<lambda>fileDataStart.
           bind_e (unpack_I e (slice data (SFATNodeOffset + 0x0C) (SFATNodeOffset + 0x10)))
             (\<lambda>fileDataEnd.
              Inr (data ! unkFlagOffset, fileNameTableEntryOffset, fileDataStart,
                   fileDataEnd - fileDataStart)))))"

text \<open>
  Placing one file: a name without a slash becomes a file of the current container;
  otherwise the first folder of the first segment's name is searched, or created and
  added, and the rest is placed inside it.
\<close>

fun insert_file :: "pystr list \<Rightarrow> byte list \<Rightarrow> entry list \<Rightarrow> entry list" where
  "insert_file [] fileData cur = cur"
| "insert_file [n] fileData cur = cur @ [File n fileData]"
| "insert_file (folderName # rest) fileData cur =
     (case find_folder folderName cur of
        Some foundFolder \<Rightarrow>
          update_folder folderName (insert_file rest fileData (folder_contents foundFolder)) cur
      | None \<Rightarrow> cur @ [Folder folderName (insert_file rest fileData [])])"

text \<open>
  The last loop of \<^verbatim>\<open>_load\<close>, over the nodes read: the contents built so far, and the
  exception when a name does not decode.
\<close>

fun add_files ::
  "byte list \<Rightarrow> nat \<Rightarrow> int \<Rightarrow> (byte \<times> int \<times> int \<times> int) list \<Rightarrow> entry list \<Rightarrow>
   entry list \<times> error option" where
  "add_files data offset dataStartOffset [] cur = (cur, None)"
| "add_files data offset dataStartOffset (node # rest) cur =
     (case node of (unkFlag, fileNameTableEntryOffset, fileDataStart, fileDataLength) \<Rightarrow>
        (case bytes_to_string data (offset + nat fileNameTableEntryOffset * 4) of
           Inl e \<Rightarrow> (cur, Some e)
         | Inr nm \<Rightarrow>
             add_files data offset dataStartOffset rest
               (insert_file (str_split 0x2F nm)
                  (slice data (nat (dataStartOffset + fileDataStart))
                     (nat (dataStartOffset + fileDataStart + fileDataLength)))
                  cur)))"

text \<open>
  \<^verbatim>\<open>_load(data)\<close>: the archive as the call leaves it, with the exception raised or the
  code returned (0 for success, 1 to 8 for the validation failures).
\<close>

definition load_tables ::
  "archive \<Rightarrow> byte list \<Rightarrow> int \<Rightarrow> archive \<times> (error + int)" where
  "load_tables a data dataStartOffset =
     (let e = endianness a in
      if slice data 0x14 0x18 \<noteq> magic_SFAT then (a, Inr 5)
      else case unpack_H e (slice data 0x18 0x1A) of
        Inl x \<Rightarrow> (a, Inl x)
      | Inr headLen \<Rightarrow>
      if headLen \<noteq> 0x0C then (a, Inr 6)
      else case unpack_H e (slice data 0x1A 0x1C) of
        Inl x \<Rightarrow> (a, Inl x)
      | Inr nodeCount \<Rightarrow>
      (case unpack_I e (slice data 0x1C 0x20) of
        Inl x \<Rightarrow> (a, Inl x)
      | Inr hm \<Rightarrow>
      (let a2 = a\<lparr>hashMultiplier := hm\<rparr> in
       case map_e (read_node e data) (map (\<lambda>nodeNum. 0x20 + 0x10 * nodeNum) [0 ..< nat nodeCount]) of
        Inl x \<Rightarrow> (a2, Inl x)
      | Inr SFATNodes \<Rightarrow>
      (let offset = 0x20 + 0x10 * nat nodeCount in
       if slice data offset (offset + 0x04) \<noteq> magic_SFNT then (a2, Inr 7)
       else case unpack_H e (slice data (offset + 0x04) (offset + 0x06)) of
        Inl x \<Rightarrow> (a2, Inl x)
      | Inr headLen2 \<Rightarrow>
       if headLen2 \<noteq> 0x08 then (a2, Inr 8)
       else (case add_files data (offset + 0x08) dataStartOffset SFATNodes [] of
               (c, Some x) \<Rightarrow> (a2\<lparr>contents := c\<rparr>, Inl x)
             | (c, None) \<Rightarrow> (a2\<lparr>contents := c\<rparr>, Inr 0))))))"

definition load' :: "archive \<Rightarrow> byte list \<Rightarrow> archive \<times> (error + int)" where
  "load' a data =
     (if slice data 0 0x04 \<noteq> magic_SARC then (a, Inr 1)
      else
        (let bom = slice data 0x06 0x08 in
         if bom \<noteq> [0xFE, 0xFF] \<and> bom \<noteq> [0xFF, 0xFE] then (a, Inr 2)
         else
           (let e = (if bom = [0xFE, 0xFF] then BigEndian else LittleEndian);
                a1 = a\<lparr>endianness := e\<rparr>
            in case unpack_H e (slice data 0x04 0x06) of
                 Inl x \<Rightarrow> (a1, Inl x)
               | Inr headLen \<Rightarrow>
                 if headLen \<noteq> 0x14 then (a1, Inr 3)
                 else case unpack_I e (slice data 0x08 0x0C) of
                   Inl x \<Rightarrow> (a1, Inl x)
                 | Inr filelen \<Rightarrow>
                   if int (length data) \<noteq> filelen then (a1, Inr 4)
                   else case unpack_I e (slice data 0x0C 0x10) of
                     Inl x \<Rightarrow> (a1, Inl x)
                   | Inr dataStartOffset \<Rightarrow> load_tables a1 data dataStartOffset)))"

text \<open>\<^verbatim>\<open>load(data)\<close> raises \<^verbatim>\<open>ValueError\<close> with the code unless \<^verbatim>\<open>_load\<close> returns 0.\<close>

definition load :: "archive \<Rightarrow> byte list \<Rightarrow> archive \<times> error option" where
  "load a data =
     (case load' a data of
        (a', Inl x) \<Rightarrow> (a', Some x)
      | (a', Inr result) \<Rightarrow> (a', if result \<noteq> 0 then Some (ValueError result) else None))"

subsection \<open>The specification's wording, for comparison\<close>

text \<open>Rounding up to a multiple, and the data start offset of section 4.4, step 4.\<close>

definition spec_round_up :: "int \<Rightarrow> int \<Rightarrow> int" where
  "spec_round_up x y = ((x + y - 1) div y) * y"

definition spec_dataStartOffset :: "int \<Rightarrow> int \<Rightarrow> int \<Rightarrow> int" where
  "spec_dataStartOffset fileCount nameTableLength desired =
     (let dataStartOffsetMinimum =
            spec_round_up (0x20 + 0x10 * fileCount + 0x08 + nameTableLength) 0x10;
          larger = max dataStartOffsetMinimum (spec_round_up desired 0x10)
      in if larger = dataStartOffsetMinimum then spec_round_up larger 0x200 else larger)"

subsection \<open>Auxiliary notions for the proofs\<close>

text \<open>The byte order mark and the marker of the SARC header, and the 16 bytes of an SFAT node.\<close>

definition bom :: "endian \<Rightarrow> byte list" where
  "bom e = (if e = BigEndian then [0xFE, 0xFF] else [0xFF, 0xFE])"

definition marker :: "endian \<Rightarrow> byte list" where
  "marker e = (if e = BigEndian then [1, 0, 0, 0] else [0, 1, 0, 0])"

definition node_bytes :: "endian \<Rightarrow> int \<Rightarrow> (pystr \<times> entry) \<times> nat \<times> nat \<Rightarrow> byte list" where
  "node_bytes e m x =
     (case x of ((filepath, file), filenameoffset, filedataoffset) \<Rightarrow>
        order_bytes e (le_bytes4 (spec_hash filepath m))
        @ order_bytes e (le_bytes4 ((int filenameoffset div 4) OR 0x1000000))
        @ order_bytes e (le_bytes4 (int filedataoffset))
        @ order_bytes e (le_bytes4 (int filedataoffset + int (length (file_data file)))))"

text \<open>
  Reading an encoded buffer back, by the layout table of the specification: the data
  start offset at 0x0C, the node count at 0x1A, and the hash field that opens each
  16-byte index record from 0x20 on.
\<close>

definition header_dataStartOffset :: "endian \<Rightarrow> byte list \<Rightarrow> error + int" where
  "header_dataStartOffset e buf = unpack_I e (slice buf 0x0C 0x10)"

definition header_totalLength :: "endian \<Rightarrow> byte list \<Rightarrow> error + int" where
  "header_totalLength e buf = unpack_I e (slice buf 0x08 0x0C)"

definition header_nodeCount :: "endian \<Rightarrow> byte list \<Rightarrow> error + int" where
  "header_nodeCount e buf = unpack_H e (slice buf 0x1A 0x1C)"

definition stored_hashes :: "endian \<Rightarrow> byte list \<Rightarrow> (error + int) list" where
  "stored_hashes e buf =
     (case header_nodeCount e buf of
        Inl x \<Rightarrow> []
      | Inr n \<Rightarrow> map (\<lambda>i. unpack_I e (slice buf (0x20 + 0x10 * i) (0x20 + 0x10 * i + 4)))
                   [0 ..< nat n])"

text \<open>The first 0x20 bytes of an encoded buffer.\<close>

definition header_bytes :: "endian \<Rightarrow> int \<Rightarrow> int \<Rightarrow> nat \<Rightarrow> int \<Rightarrow> byte list" where
  "header_bytes e flen d n m =
     magic_SARC @ order_bytes e (le_bytes2 0x14) @ bom e
     @ order_bytes e (le_bytes4 flen) @ order_bytes e (le_bytes4 d) @ marker e
     @ magic_SFAT @ order_bytes e (le_bytes2 0x0C)
     @ order_bytes e (le_bytes2 (int n)) @ order_bytes e (le_bytes4 m)"


definition node_dataStart :: "endian \<Rightarrow> byte list \<Rightarrow> nat \<Rightarrow> error + int" where
  "node_dataStart e buf i = unpack_I e (slice buf (0x20 + 0x10 * i + 8) (0x20 + 0x10 * i + 0x0C))"

subsection \<open>An example archive\<close>

text \<open>
  A big-endian archive with the files "b" (one byte) and "a" (17 bytes), and the
  241 bytes that \<^verbatim>\<open>save(0x70)\<close> returns for it: headers and two index records, the name
  table, padding up to 0x70, the payload of "a", padding, the payload of "b".
\<close>

definition example_archive :: archive where
  "example_archive =
     \<lparr>contents = [File (str ''b'') [0x42], File (str ''a'') (replicate 17 0x41)],
      endianness = BigEndian, hashMultiplier = 0x65\<rparr>"

definition example_buffer :: "byte list" where
  "example_buffer =
     [0x53, 0x41, 0x52, 0x43, 0, 0x14, 0xFE, 0xFF, 0, 0, 0, 0xF1, 0, 0, 0, 0x70, 1, 0, 0, 0,
      0x53, 0x46, 0x41, 0x54, 0, 0x0C, 0, 2, 0, 0, 0, 0x65,
      0, 0, 0, 0x61, 1, 0, 0, 0, 0, 0, 0, 0, 0, 0, 0, 0x11,
      0, 0, 0, 0x62, 1, 0, 0, 1, 0, 0, 0, 0x80, 0, 0, 0, 0x81,
      0x53, 0x46, 0x4E, 0x54, 0, 8, 0, 0,
      0x61, 0, 0, 0, 0x62, 0, 0, 0]
     @ replicate 32 0 @ replicate 17 0x41 @ replicate 111 0 @ [0x42]"

text \<open>
  The payload alignment as the specification words it (section 4.4, step 5): the
  largest power of two that divides the data start offset.
\<close>

function spec_alignment :: "int \<Rightarrow> int" where
  "spec_alignment d = (if d = 0 then 0 else if odd d then 1 else 2 * spec_alignment (d div 2))"
  by pat_completeness auto
termination
  by (relation "measure (\<lambda>d. nat \<bar>d\<bar>)") auto

declare spec_alignment.simps [simp del]

subsection \<open>The validation checks as the specification lists them\<close>

text \<open>
  The eight structural checks of the decoder, in the order of the specification's
  error list, each as a predicate on the whole buffer: the outer magic, the byte order
  mark, the outer header length, the total length, the SFAT magic, the SFAT header
  length, the SFNT magic after the index records, the SFNT header length. A field
  that the buffer is too short to hold does not have the required value.
  \<open>spec_first_violated\<close> is the number of the first check that fails.
\<close>

definition spec_endian :: "byte list \<Rightarrow> endian" where
  "spec_endian d = (if slice d 0x06 0x08 = [0xFE, 0xFF] then BigEndian else LittleEndian)"

definition spec_sfnt_offset :: "byte list \<Rightarrow> nat" where
  "spec_sfnt_offset d =
     0x20 + 0x10 * (case unpack_H (spec_endian d) (slice d 0x1A 0x1C) of
                      Inl x \<Rightarrow> 0 | Inr nodeCount \<Rightarrow> nat nodeCount)"

definition spec_check1 :: "byte list \<Rightarrow> bool" where
  "spec_check1 d = (slice d 0 0x04 = magic_SARC)"

definition spec_check2 :: "byte list \<Rightarrow> bool" where
  "spec_check2 d = (slice d 0x06 0x08 = [0xFE, 0xFF] \<or> slice d 0x06 0x08 = [0xFF, 0xFE])"

definition spec_check3 :: "byte list \<Rightarrow> bool" where
  "spec_check3 d = (unpack_H (spec_endian d) (slice d 0x04 0x06) = Inr 0x14)"

definition spec_check4 :: "byte list \<Rightarrow> bool" where
  "spec_check4 d = (unpack_I (spec_endian d) (slice d 0x08 0x0C) = Inr (int (length d)))"

definition spec_check5 :: "byte list \<Rightarrow> bool" where
  "spec_check5 d = (slice d 0x14 0x18 = magic_SFAT)"

definition spec_check6 :: "byte list \<Rightarrow> bool" where
  "spec_check6 d = (unpack_H (spec_endian d) (slice d 0x18 0x1A) = Inr 0x0C)"

definition spec_check7 :: "byte list \<Rightarrow> bool" where
  "spec_check7 d = (slice d (spec_sfnt_offset d) (spec_sfnt_offset d + 0x04) = magic_SFNT)"

definition spec_check8 :: "byte list \<Rightarrow> bool" where
  "spec_check8 d =
     (unpack_H (spec_endian d) (slice d (spec_sfnt_offset d + 0x04) (spec_sfnt_offset d + 0x06))
      = Inr 0x08)"

definition spec_first_violated :: "byte list \<Rightarrow> int option" where
  "spec_first_violated d =
     (if \<not> spec_check1 d then Some 1
      else if \<not> spec_check2 d then Some 2
      else if \<not> spec_check3 d then Some 3
      else if \<not> spec_check4 d then Some 4
      else if \<not> spec_check5 d then Some 5
      else if \<not> spec_check6 d then Some 6
      else if \<not> spec_check7 d then Some 7
      else if \<not> spec_check8 d then Some 8
      else None)"

text \<open>
  The number of bytes a buffer must hold for the decoder to reach the verdict of check
  \<open>k\<close>: the fields it reads up to and including that check. The first three checks
  need nothing beyond what passing the earlier ones implies.
\<close>

definition spec_fields_end :: "int \<Rightarrow> byte list \<Rightarrow> nat" where
  "spec_fields_end k d =
     (if k \<le> 3 then 0
      else if k = 4 then 0x0C
      else if k = 5 then 0x10
      else if k = 6 then 0x1A
      else if k = 7 then spec_sfnt_offset d
      else spec_sfnt_offset d + 0x06)"

subsection \<open>Example buffers\<close>

text \<open>
  The 40 bytes of a big-endian archive without files, and a truncated buffer: the
  first twelve bytes of an archive whose total length field says twelve.
\<close>

definition empty_sarc :: "byte list" where
  "empty_sarc =
     [0x53, 0x41, 0x52, 0x43, 0, 0x14, 0xFE, 0xFF, 0, 0, 0, 0x28, 0, 0, 0, 0x28, 1, 0, 0, 0,
      0x53, 0x46, 0x41, 0x54, 0, 0x0C, 0, 0, 0, 0, 0, 0x65,
      0x53, 0x46, 0x4E, 0x54, 0, 8, 0, 0]"

definition truncated_sarc :: "byte list" where
  "truncated_sarc = [0x53, 0x41, 0x52, 0x43, 0, 0x14, 0xFE, 0xFF, 0, 0, 0, 0x0C]"

subsection \<open>Trees that survive a round trip\<close>

text \<open>
  A code point that \<^verbatim>\<open>encode('utf-8')\<close> accepts; a name made of such code points without
  the terminator 0; a tree all of whose names are such, and whose folder names are
  moreover not empty, hold no backslash and do not end in a slash.
\<close>

definition encodable_char :: "nat \<Rightarrow> bool" where
  "encodable_char c = (c < 0x110000 \<and> \<not> (0xD800 \<le> c \<and> c < 0xE000))"

definition wf_name :: "pystr \<Rightarrow> bool" where
  "wf_name s = list_all (\<lambda>c. c \<noteq> 0 \<and> encodable_char c) s"

fun wf_entry :: "entry \<Rightarrow> bool" and wf_entries :: "entry list \<Rightarrow> bool" where
  "wf_entry (File n d) = wf_name n"
| "wf_entry (Folder n c) =
     (wf_name n \<and> n \<noteq> [] \<and> 0x5C \<notin> set n \<and> last n \<noteq> 0x2F \<and> wf_entries c)"
| "wf_entries [] = True"
| "wf_entries (x # xs) = (wf_entry x \<and> wf_entries xs)"

text \<open>
  The full slash-delimited path and the payload of every file of a tree, and the
  same with the file objects kept.
\<close>

fun paths_of :: "entry \<Rightarrow> (pystr \<times> byte list) list"
and paths_of_list :: "entry list \<Rightarrow> (pystr \<times> byte list) list" where
  "paths_of (File n d) = [(n, d)]"
| "paths_of (Folder n c) = map (\<lambda>(p, d). (n @ [0x2F] @ p, d)) (paths_of_list c)"
| "paths_of_list [] = []"
| "paths_of_list (x # xs) = paths_of x @ paths_of_list xs"

fun flat_of :: "entry list \<Rightarrow> (pystr \<times> entry) list" where
  "flat_of [] = []"
| "flat_of (File n d # rest) = (n, File n d) # flat_of rest"
| "flat_of (Folder n c # rest) = map (\<lambda>(p, f). (n @ [0x2F] @ p, f)) (flat_of c) @ flat_of rest"

text \<open>The bytes of an encoded buffer, from the tables the encoder has built.\<close>

definition layout ::
  "endian \<Rightarrow> int \<Rightarrow> (pystr \<times> entry) list \<Rightarrow> nat list \<Rightarrow> nat list \<Rightarrow> byte list \<Rightarrow> int \<Rightarrow>
   byte list \<Rightarrow> byte list" where
  "layout e m fl offs doffs names d dtab =
     header_bytes e (d + int (length dtab)) d (length fl) m
     @ concat (map (node_bytes e m) (zip fl (zip offs doffs)))
     @ (sfntHead e @ names
        @ replicate (nat (d - (0x28 + 0x10 * int (length fl) + int (length names)))) 0
        @ dtab)"

subsection \<open>A file name with a NUL character\<close>

text \<open>
  Whether no two members of any folder of a tree share a name. An archive whose only
  file is named "a", NUL, "b", and the 81 bytes that \<^verbatim>\<open>save(0x50)\<close> returns for it.
\<close>

fun names_unique :: "entry \<Rightarrow> bool" and names_unique_list :: "entry list \<Rightarrow> bool" where
  "names_unique (File n d) = True"
| "names_unique (Folder n c) = (distinct (map name c) \<and> names_unique_list c)"
| "names_unique_list [] = True"
| "names_unique_list (x # xs) = (names_unique x \<and> names_unique_list xs)"

definition nul_name_archive :: archive where
  "nul_name_archive =
     \<lparr>contents = [File [0x61, 0, 0x62] [0x42]], endianness = BigEndian, hashMultiplier = 0x65\<rparr>"

definition nul_name_buffer :: "byte list" where
  "nul_name_buffer =
     [0x53, 0x41, 0x52, 0x43, 0, 0x14, 0xFE, 0xFF, 0, 0, 0, 0x51, 0, 0, 0, 0x50, 1, 0, 0, 0,
      0x53, 0x46, 0x41, 0x54, 0, 0x0C, 0, 1, 0, 0, 0, 0x65,
      0, 0x0F, 0x19, 0x9B, 1, 0, 0, 0, 0, 0, 0, 0, 0, 0, 0, 1,
      0x53, 0x46, 0x4E, 0x54, 0, 8, 0, 0,
      0x61, 0, 0x62, 0]
     @ replicate 20 0 @ [0x42]"

section \<open>Properties\<close>

subsection \<open>Packing and unpacking\<close>

lemma uint_byte_of_int: "uint (word_of_int x :: byte) = x mod 256"
  by (simp add: uint_word_of_int)

lemma bytes4_sum:
  fixes x :: int
  shows "x mod 256 + 256 * (x div 256 mod 256 + 256 * (x div 65536 mod 256
          + 256 * (x div 16777216))) = x"
proof -
  have d2: "x div 65536 = x div 256 div 256"
    using zdiv_zmult2_eq [of 256 x 256] by simp
  have d3: "x div 16777216 = x div 256 div 256 div 256"
    using zdiv_zmult2_eq [of 256 x 65536] d2 by simp
  define y where "y = x div 256"
  define z where "z = y div 256"
  have "z mod 256 + 256 * (z div 256) = z" by simp
  moreover have "y mod 256 + 256 * z = y" by (simp add: z_def)
  moreover have "x mod 256 + 256 * y = x" by (simp add: y_def)
  ultimately show ?thesis
    unfolding d2 d3 y_def [symmetric] z_def [symmetric] by simp
qed

lemma le_value_le_bytes4:
  assumes "0 \<le> x" and "x < 2 ^ 32"
  shows "le_value (le_bytes4 x) = x"
proof -
  have a: "x div 16777216 mod 256 = x div 16777216" using assms by simp
  show ?thesis
    using bytes4_sum [of x] by (simp add: le_bytes4_def uint_byte_of_int a)
qed

lemma le_value_le_bytes2:
  assumes "0 \<le> x" and "x < 2 ^ 16"
  shows "le_value (le_bytes2 x) = x"
proof -
  have a: "x div 256 mod 256 = x div 256" using assms by simp
  have "x mod 256 + 256 * (x div 256) = x" by simp
  then show ?thesis
    by (simp add: le_bytes2_def uint_byte_of_int a)
qed

lemma order_bytes_twice [simp]: "order_bytes e (order_bytes e bs) = bs"
  by (cases e) (simp_all add: order_bytes_def)

lemma length_order_bytes [simp]: "length (order_bytes e bs) = length bs"
  by (cases e) (simp_all add: order_bytes_def)

lemma unpack_pack_I:
  "0 \<le> x \<Longrightarrow> x < 2 ^ 32 \<Longrightarrow> pack_I e x = Inr (order_bytes e (le_bytes4 x))
     \<and> unpack_I e (order_bytes e (le_bytes4 x)) = Inr x"
  by (simp add: pack_I_def unpack_I_def le_value_le_bytes4) (simp add: le_bytes4_def)

lemma unpack_pack_H:
  "0 \<le> x \<Longrightarrow> x < 2 ^ 16 \<Longrightarrow> pack_H e x = Inr (order_bytes e (le_bytes2 x))
     \<and> unpack_H e (order_bytes e (le_bytes2 x)) = Inr x"
  by (simp add: pack_H_def unpack_H_def le_value_le_bytes2) (simp add: le_bytes2_def)

subsection \<open>The hash\<close>

lemma and_mask32: "(x::int) AND 0xFFFFFFFF = x mod 2 ^ 32"
proof -
  have "(0xFFFFFFFF::int) = mask 32" by (simp add: mask_eq_exp_minus_1)
  then have "x AND 0xFFFFFFFF = take_bit 32 x" by (simp only: take_bit_eq_mask)
  then show ?thesis by (simp add: take_bit_eq_mod)
qed

lemma hash_loop_foldl:
  "hash_loop m r nm = foldl (\<lambda>result char. (result * m + int char) mod 2 ^ 32) r nm"
  by (induction nm arbitrary: r) (simp_all add: and_mask32)

lemma hash_loop_range:
  "0 \<le> r \<Longrightarrow> r < 2 ^ 32 \<Longrightarrow> 0 \<le> hash_loop m r nm \<and> hash_loop m r nm < 2 ^ 32"
  by (induction nm arbitrary: r) (simp_all add: and_mask32)

lemma hash_loop_eq_spec: "hash_loop m 0 nm = spec_hash nm m"
  by (simp add: hash_loop_foldl spec_hash_def)

lemma spec_hash_range: "0 \<le> spec_hash nm m \<and> spec_hash nm m < 2 ^ 32"
  using hash_loop_range [of 0 m nm] by (simp add: hash_loop_eq_spec)

text \<open>
  Claim C5. The hash function is total: for every name, endianness and multiplier it
  returns the four bytes of a value (never raising), that value is the left fold
  \<open>result = (result * multiplier + code_point(char)) mod 2^32\<close> from 0, reading the
  bytes back in the same endianness gives the value again, and the hash of "a" with
  multiplier 0x65 is 0x61.
\<close>

theorem filenameHash_spec:
  "filenameHash nm e m = Inr (order_bytes e (le_bytes4 (spec_hash nm m)))
   \<and> unpack_I e (order_bytes e (le_bytes4 (spec_hash nm m))) = Inr (spec_hash nm m)
   \<and> 0 \<le> spec_hash nm m \<and> spec_hash nm m < 2 ^ 32
   \<and> spec_hash (str ''a'') 0x65 = 0x61
   \<and> filenameHash (str ''a'') e 0x65 = Inr (order_bytes e [0x61, 0, 0, 0])"
proof -
  have r: "0 \<le> spec_hash nm m" "spec_hash nm m < 2 ^ 32"
    using spec_hash_range [of nm m] by simp_all
  have a: "spec_hash (str ''a'') 0x65 = 0x61"
    by (simp add: spec_hash_def str_def)
  have b: "filenameHash (str ''a'') e 0x65 = Inr (order_bytes e [0x61, 0, 0, 0])"
    by (simp add: filenameHash_def hash_loop_eq_spec a pack_I_def le_bytes4_def)
  show ?thesis
    using unpack_pack_I [OF r, of e] r a b
    by (simp add: filenameHash_def hash_loop_eq_spec)
qed

subsection \<open>Path accessors\<close>

lemma split_abc: "str_split 0x2F (str_replace 0x5C 0x2F (str ''a/b/c'')) = [str ''a'', str ''b'', str ''c'']"
  by (simp add: str_def str_replace_def)

lemma split_c: "str_split 0x2F (str_replace 0x5C 0x2F (str ''c'')) = [str ''c'']"
  by (simp add: str_def str_replace_def)

text \<open>
  Claim C2, evaluated on the code. On an empty archive, setting the path "a/b/c" to any
  entry creates no folder "a": it leaves a folder "b" under the root, a folder "c"
  inside it and the entry inside that folder. Getting "a/b/c" afterwards raises
  KeyError, and so does deleting "a/b/c" when the entry's own name is not the whole
  string "a/b/c".
\<close>

theorem setitem_abc_evaluated:
  "setitem (new_archive e m) (str ''a/b/c'') val =
     (str ''c'', \<lparr>contents = [Folder (str ''b'') [Folder (str ''c'') [val]]],
                  endianness = e, hashMultiplier = m\<rparr>, None)
   \<and> getitem (fst (snd (setitem (new_archive e m) (str ''a/b/c'') val))) (str ''a/b/c'')
       = Inl KeyError
   \<and> delitem (fst (snd (setitem (new_archive e m) (str ''a/b/c'') (File [] d)))) (str ''a/b/c'')
       = Inl KeyError"
proof -
  have s: "setitem (new_archive e m) (str ''a/b/c'') v =
     (str ''c'', \<lparr>contents = [Folder (str ''b'') [Folder (str ''c'') [v]]],
                  endianness = e, hashMultiplier = m\<rparr>, None)" for v
    by (simp add: setitem_def split_abc new_archive_def find_folder_def)
  have g: "getitem \<lparr>contents = [Folder (str ''b'') [Folder (str ''c'') [val]]],
                  endianness = e, hashMultiplier = m\<rparr> (str ''a/b/c'') = Inl KeyError"
    by (simp add: getitem_def split_abc find_folder_def) (simp add: str_def)
  have d: "delitem \<lparr>contents = [Folder (str ''b'') [Folder (str ''c'') [File [] d]]],
                  endianness = e, hashMultiplier = m\<rparr> (str ''a/b/c'') = Inl KeyError"
    by (simp add: delitem_def split_abc find_folder_def) (simp add: str_def)
  show ?thesis by (simp add: s g d)
qed

text \<open>
  Claim C3, evaluated on the code. Setting the path "c" to a file created without a
  name stores the final segment in the class attribute only: the file is inserted
  with its name still empty, and looking "c" up afterwards raises KeyError.
\<close>

theorem setitem_name_not_assigned:
  "setitem (new_archive e m) (str ''c'') (File [] d) =
     (str ''c'', \<lparr>contents = [File [] d], endianness = e, hashMultiplier = m\<rparr>, None)
   \<and> getitem (fst (snd (setitem (new_archive e m) (str ''c'') (File [] d)))) (str ''c'')
       = Inl KeyError"
proof -
  have s: "setitem (new_archive e m) (str ''c'') (File [] d) =
     (str ''c'', \<lparr>contents = [File [] d], endianness = e, hashMultiplier = m\<rparr>, None)"
    by (simp add: setitem_def split_c new_archive_def)
  have g: "getitem \<lparr>contents = [File [] d], endianness = e, hashMultiplier = m\<rparr> (str ''c'')
             = Inl KeyError"
    by (simp add: getitem_def split_c) (simp add: str_def)
  show ?thesis by (simp add: s g)
qed

subsection \<open>Rounding and the data start offset\<close>

lemma or_mask_int: "(x::int) OR mask n = 2 ^ n * (x div 2 ^ n) + (2 ^ n - 1)"
proof -
  have "x OR mask n = push_bit n (drop_bit n x) OR mask n"
    by (rule bit_eqI) (auto simp add: bit_or_iff bit_push_bit_iff bit_drop_bit_eq bit_mask_iff)
  also have "\<dots> = concat_bit n (- 1) (drop_bit n x)"
    by (simp add: concat_bit_def ac_simps)
  also have "\<dots> = take_bit n (- 1 :: int) + push_bit n (drop_bit n x)"
    by (simp add: concat_bit_eq)
  finally show ?thesis
    by (simp add: push_bit_eq_mult drop_bit_eq_div mask_eq_exp_minus_1 take_bit_minus_one_eq_mask)
qed

lemma round_up_pow2: "round_up x (2 ^ n) = 2 ^ n * ((x - 1) div 2 ^ n) + 2 ^ n"
  using or_mask_int [of "x - 1" n] by (simp add: round_up_def mask_eq_exp_minus_1)

lemma round_up_eq_spec: "round_up x (2 ^ n) = spec_round_up x (2 ^ n)"
proof -
  have "(x + 2 ^ n - 1) div 2 ^ n = ((x - 1) + 2 ^ n) div (2 ^ n :: int)"
    by (simp add: algebra_simps)
  also have "\<dots> = (x - 1) div 2 ^ n + 1"
    by (rule div_add_self2) simp
  finally show ?thesis
    by (simp add: round_up_pow2 spec_round_up_def algebra_simps)
qed

lemma round_up_16: "round_up x 0x10 = spec_round_up x 0x10"
  using round_up_eq_spec [of x 4] by simp

lemma round_up_512: "round_up x 0x200 = spec_round_up x 0x200"
  using round_up_eq_spec [of x 9] by simp

lemma spec_round_up_least:
  assumes "0 < y"
  shows "y dvd spec_round_up x y \<and> x \<le> spec_round_up x y \<and> spec_round_up x y < x + y"
proof -
  define q where "q = (x + y - 1) div y"
  have a: "q * y + (x + y - 1) mod y = x + y - 1" by (simp add: q_def)
  have b: "0 \<le> (x + y - 1) mod y" "(x + y - 1) mod y < y" using assms by simp_all
  show ?thesis unfolding spec_round_up_def q_def [symmetric] using a b by auto
qed

lemma choose_dataStartOffset_eq_spec:
  "choose_dataStartOffset n len arg = spec_dataStartOffset (int n) (int len) arg"
  by (simp add: choose_dataStartOffset_def spec_dataStartOffset_def round_up_16 round_up_512
        Let_def)

subsection \<open>The alignment loop\<close>

lemma alignment_loop_nonzero: "al \<noteq> 0 \<Longrightarrow> alignment_loop d al k = Some al"
  by (subst alignment_loop.simps) simp

lemma get_alignment_low: "d AND 0xF0 \<noteq> 0 \<Longrightarrow> get_alignment d = Some (d AND 0xF0)"
  by (simp add: get_alignment_def alignment_loop_nonzero)

lemma alignment_loop_returns:
  "bit d j \<Longrightarrow> 4 + k \<le> j \<Longrightarrow>
   \<exists>al. alignment_loop d 0 k = Some al \<and> al \<noteq> 0"
proof (induction "j - (4 + k)" arbitrary: k)
  case 0
  then have "j = 4 + k" by simp
  with \<open>bit d j\<close> have "bit (d AND push_bit k 0xF0) j"
    by (simp add: bit_and_iff bit_push_bit_iff)
  then have nz: "d AND push_bit k 0xF0 \<noteq> 0" by auto
  show ?case
    by (subst alignment_loop.simps) (simp add: alignment_loop_nonzero nz)
next
  case (Suc n)
  show ?case
  proof (cases "d AND push_bit k 0xF0 = 0")
    case False
    then show ?thesis
      by (subst alignment_loop.simps) (simp add: alignment_loop_nonzero)
  next
    case True
    have "j \<noteq> 4 + k"
    proof
      assume "j = 4 + k"
      with \<open>bit d j\<close> have "bit (d AND push_bit k 0xF0) j"
        by (simp add: bit_and_iff bit_push_bit_iff)
      with True show False by simp
    qed
    with Suc.prems have "4 + (k + 1) \<le> j" by simp
    moreover from Suc.hyps have "n = j - (4 + (k + 1))" by simp
    ultimately obtain al where "alignment_loop d 0 (k + 1) = Some al" "al \<noteq> 0"
      using Suc.hyps(1) [of "k + 1"] Suc.prems(1) by blast
    then show ?thesis
      by (subst alignment_loop.simps) (simp add: True)
  qed
qed

text \<open>
  Claim C7, evaluated on the code. On an archive without files the caller's offset
  0x50 is the effective data start offset, and the alignment derived from it is 0x50,
  while the largest power of two dividing 0x50 is 0x10.
\<close>

theorem alignment_of_0x50:
  "choose_dataStartOffset 0 0 0x50 = 0x50 \<and> get_alignment 0x50 = Some 0x50
   \<and> (2::int) ^ 4 dvd 0x50 \<and> \<not> (2::int) ^ 5 dvd 0x50"
proof -
  have "choose_dataStartOffset 0 0 0x50 = 0x50"
    by (simp add: choose_dataStartOffset_def round_up_def)
  moreover have "get_alignment 0x50 = Some 0x50"
    by (simp add: get_alignment_low)
  ultimately show ?thesis by simp
qed

subsection \<open>Layout of the encoded buffer\<close>

lemma bind_e_Inr: "bind_e r f = Inr y \<longleftrightarrow> (\<exists>x. r = Inr x \<and> f x = Inr y)"
  by (cases r) (simp_all add: bind_e_def)

lemma append_e_Inr: "append_e r s = Inr zs \<longleftrightarrow> (\<exists>xs ys. r = Inr xs \<and> s = Inr ys \<and> zs = xs @ ys)"
  by (cases r; cases s) (auto simp add: append_e_def)

lemma map_e_Inr: "map_e f xs = Inr ys \<longleftrightarrow> list_all2 (\<lambda>x y. f x = Inr y) xs ys"
proof (induction xs arbitrary: ys)
  case Nil
  then show ?case by auto
next
  case (Cons x xs)
  show ?case
    by (cases ys; cases "f x"; cases "map_e f xs")
       (auto simp add: Cons.IH [symmetric])
qed

lemma pack_I_Inr: "pack_I e x = Inr bs \<longleftrightarrow> 0 \<le> x \<and> x < 2 ^ 32 \<and> bs = order_bytes e (le_bytes4 x)"
  by (auto simp add: pack_I_def)

lemma pack_H_Inr: "pack_H e x = Inr bs \<longleftrightarrow> 0 \<le> x \<and> x < 2 ^ 16 \<and> bs = order_bytes e (le_bytes2 x)"
  by (auto simp add: pack_H_def)

lemma length_le_bytes4 [simp]: "length (le_bytes4 x) = 4"
  by (simp add: le_bytes4_def)

lemma length_le_bytes2 [simp]: "length (le_bytes2 x) = 2"
  by (simp add: le_bytes2_def)

lemma unpack_I_le_bytes4: "0 \<le> x \<Longrightarrow> x < 2 ^ 32 \<Longrightarrow> unpack_I e (order_bytes e (le_bytes4 x)) = Inr x"
  by (simp add: unpack_I_def le_value_le_bytes4)

lemma unpack_H_le_bytes2: "0 \<le> x \<Longrightarrow> x < 2 ^ 16 \<Longrightarrow> unpack_H e (order_bytes e (le_bytes2 x)) = Inr x"
  by (simp add: unpack_H_def le_value_le_bytes2)

lemma slice_mid: "length p = a \<Longrightarrow> b = a + length x \<Longrightarrow> slice (p @ x @ s) a b = x"
  by (simp add: slice_def)

lemma assemble_layout:
  assumes "assemble e m fl offs names d doffs dtab = Inr buf"
  shows "\<exists>sfat. sfat_nodes e m fl offs doffs = Inr sfat
     \<and> 0 \<le> d \<and> d + int (length dtab) < 2 ^ 32 \<and> length fl < 2 ^ 16 \<and> 0 \<le> m \<and> m < 2 ^ 32
     \<and> buf = magic_SARC @ order_bytes e (le_bytes2 0x14) @ bom e
              @ order_bytes e (le_bytes4 (d + int (length dtab)))
              @ order_bytes e (le_bytes4 d) @ marker e
              @ magic_SFAT @ order_bytes e (le_bytes2 0x0C)
              @ order_bytes e (le_bytes2 (int (length fl))) @ order_bytes e (le_bytes4 m)
              @ sfat @ sfntHead e @ names
              @ replicate (nat (d - (0x28 + int (length sfat) + int (length names)))) 0
              @ dtab"
  using assms
  unfolding assemble_def sarcHead_def sfatHead_def bind_e_Inr pack_I_Inr pack_H_Inr
  apply (clarsimp simp add: bom_def marker_def Let_def magic_SARC_def magic_SFAT_def sfntHead_def magic_SFNT_def)
  apply (auto simp add: algebra_simps)
  done

lemma filenameHash_Inr: "filenameHash p e m = Inr (order_bytes e (le_bytes4 (spec_hash p m)))"
  using spec_hash_range [of p m] by (simp add: filenameHash_def hash_loop_eq_spec pack_I_def)

lemma sfat_node_Inr:
  "sfat_node e m x = Inr r \<Longrightarrow> r = node_bytes e m x"
  by (cases x) (auto simp add: sfat_node_def node_bytes_def bind_e_Inr pack_I_Inr filenameHash_Inr)

lemma sfat_node_ranges:
  "sfat_node e m ((p, f), no, do) = Inr r \<Longrightarrow>
     (int no div 4) OR 0x1000000 < 2 ^ 32 \<and> int do + int (length (file_data f)) < 2 ^ 32"
  by (auto simp add: sfat_node_def bind_e_Inr pack_I_Inr)

lemma length_node_bytes [simp]: "length (node_bytes e m x) = 16"
  by (cases x) (auto simp add: node_bytes_def)

lemma list_all2_fun: "list_all2 (\<lambda>x y. y = f x) xs ys \<Longrightarrow> ys = map f xs"
  by (induction rule: list_all2_induct) simp_all

lemma sfat_nodes_Inr:
  assumes "sfat_nodes e m fl offs doffs = Inr sfat"
  shows "sfat = concat (map (node_bytes e m) (zip fl (zip offs doffs)))"
proof -
  from assms obtain nodes where
    n: "list_all2 (\<lambda>x y. sfat_node e m x = Inr y) (zip fl (zip offs doffs)) nodes"
    and s: "sfat = concat nodes"
    by (auto simp add: sfat_nodes_def bind_e_Inr map_e_Inr)
  from n have "list_all2 (\<lambda>x y. y = node_bytes e m x) (zip fl (zip offs doffs)) nodes"
    by (rule list_all2_mono) (simp add: sfat_node_Inr)
  then have "nodes = map (node_bytes e m) (zip fl (zip offs doffs))"
    by (rule list_all2_fun)
  then show ?thesis using s by simp
qed

lemma insort_key_map:
  "insort_key f (g x) (map g ys) = map g (insort_key (\<lambda>y. f (g y)) x ys)"
  by (induction ys) simp_all

lemma sort_key_map: "sort_key f (map g xs) = map g (sort_key (\<lambda>y. f (g y)) xs)"
  by (induction xs) (simp_all add: insort_key_map)

lemma sort_key_of_Inr: "sort_key_of e m x = Inr (spec_hash (fst x) m)"
  using spec_hash_range [of "fst x" m]
  by (simp add: sort_key_of_def bind_e_def filenameHash_Inr unpack_I_def le_value_le_bytes4)

lemma zip_map_self: "zip (map f xs) xs = map (\<lambda>x. (f x, x)) xs"
  by (induction xs) simp_all

lemma sort_flatList_Inr:
  "sort_flatList e m fl0 = Inr (sort_key (\<lambda>x. spec_hash (fst x) m) fl0)"
proof -
  have "list_all2 (\<lambda>x y. sort_key_of e m x = Inr y) fl0 (map (\<lambda>x. spec_hash (fst x) m) fl0)"
    by (simp add: list_all2_conv_all_nth sort_key_of_Inr)
  then have "map_e (sort_key_of e m) fl0 = Inr (map (\<lambda>x. spec_hash (fst x) m) fl0)"
    by (simp add: map_e_Inr)
  then show ?thesis
    by (simp add: sort_flatList_def bind_e_def zip_map_self sort_key_map comp_def)
qed

lemma concat_blocks_drop:
  "\<forall>x \<in> set xs. length x = k \<Longrightarrow> i \<le> length xs \<Longrightarrow> drop (k * i) (concat xs) = concat (drop i xs)"
proof (induction xs arbitrary: i)
  case Nil
  then show ?case by simp
next
  case (Cons x xs)
  show ?case
  proof (cases i)
    case 0
    then show ?thesis by simp
  next
    case (Suc j)
    with Cons.prems have "drop (k * j) (concat xs) = concat (drop j xs)"
      by (intro Cons.IH) simp_all
    with Suc Cons.prems show ?thesis by simp
  qed
qed

lemma length_concat_blocks:
  "\<forall>x \<in> set xs. length x = k \<Longrightarrow> length (concat xs) = k * length xs"
  by (induction xs) simp_all

lemma slice_blocks:
  assumes "length h = n0" and "\<forall>x \<in> set xs. length x = k" and "i < length xs" and "b \<le> k"
  shows "slice (h @ concat xs @ t) (n0 + k * i + a) (n0 + k * i + b) = slice (xs ! i) a b"
proof -
  have "drop (k * i) (concat xs) = concat (drop i xs)"
    using assms by (intro concat_blocks_drop) simp_all
  also have "drop i xs = xs ! i # drop (Suc i) xs"
    using assms by (simp add: Cons_nth_drop_Suc)
  finally have d: "drop (k * i) (concat xs) = xs ! i @ concat (drop (Suc i) xs)" by simp
  have l: "k * i \<le> length (concat xs)"
    using assms(3) length_concat_blocks [OF assms(2)] by simp
  have "drop (n0 + k * i + a) (h @ concat xs @ t) = drop (k * i + a) (concat xs @ t)"
    using assms(1) by (simp add: add.assoc)
  also have "\<dots> = drop a (drop (k * i) (concat xs @ t))"
    by (simp only: drop_drop add.commute)
  also have "drop (k * i) (concat xs @ t) = drop (k * i) (concat xs) @ t"
    using l by simp
  also have "\<dots> = xs ! i @ concat (drop (Suc i) xs) @ t"
    using d by simp
  finally show ?thesis
    using assms by (simp add: slice_def)
qed


lemma save_D:
  assumes "save a arg = Some (Inr buf)"
  obtains fl0 fl offs names d al doffs dtab where
    "flatten_root (contents a) = Inr fl0"
    "fl = sort_key (\<lambda>x. spec_hash (fst x) (hashMultiplier a)) fl0"
    "names_loop fl [] = Inr (offs, names)"
    "d = choose_dataStartOffset (length fl) (length names) arg"
    "get_alignment d = Some al"
    "data_loop al (map snd fl) 0 [] = (doffs, dtab)"
    "assemble (endianness a) (hashMultiplier a) fl offs names d doffs dtab = Inr buf"
  using assms
  by (auto simp add: save_def sort_flatList_Inr Let_def split: sum.splits option.splits prod.splits)

lemma names_loop_length:
  "names_loop fl tbl = Inr (offs, t) \<Longrightarrow> length offs = length fl"
proof (induction fl arbitrary: tbl offs)
  case Nil
  then show ?case by simp
next
  case (Cons x fl)
  then show ?case
    by (auto simp add: Let_def split: sum.splits prod.splits)
qed

lemma data_loop_length:
  "data_loop al files idx tbl = (doffs, t) \<Longrightarrow> length doffs = length files"
proof (induction files arbitrary: idx tbl doffs)
  case Nil
  then show ?case by simp
next
  case (Cons x files)
  then show ?case
    by (auto simp add: Let_def split: prod.splits)
qed

lemma length_header_bytes [simp]: "length (header_bytes e flen d n m) = 32"
  by (simp add: header_bytes_def magic_SARC_def magic_SFAT_def bom_def marker_def)

lemma save_layout:
  assumes "save a arg = Some (Inr buf)"
  obtains fl0 fl offs names d al doffs dtab where
    "flatten_root (contents a) = Inr fl0"
    "fl = sort_key (\<lambda>x. spec_hash (fst x) (hashMultiplier a)) fl0"
    "names_loop fl [] = Inr (offs, names)"
    "d = choose_dataStartOffset (length fl) (length names) arg"
    "get_alignment d = Some al"
    "data_loop al (map snd fl) 0 [] = (doffs, dtab)"
    "length offs = length fl" "length doffs = length fl"
    "0 \<le> d" "d + int (length dtab) < 2 ^ 32" "length fl < 2 ^ 16"
    "0 \<le> hashMultiplier a" "hashMultiplier a < 2 ^ 32"
    "buf = header_bytes (endianness a) (d + int (length dtab)) d (length fl) (hashMultiplier a)
           @ concat (map (node_bytes (endianness a) (hashMultiplier a)) (zip fl (zip offs doffs)))
           @ (sfntHead (endianness a) @ names
           @ replicate (nat (d - (0x28 + 0x10 * int (length fl) + int (length names)))) 0
           @ dtab)"
proof -
  from assms obtain fl0 fl offs names d al doffs dtab where
    1: "flatten_root (contents a) = Inr fl0"
    "fl = sort_key (\<lambda>x. spec_hash (fst x) (hashMultiplier a)) fl0"
    "names_loop fl [] = Inr (offs, names)"
    "d = choose_dataStartOffset (length fl) (length names) arg"
    "get_alignment d = Some al"
    "data_loop al (map snd fl) 0 [] = (doffs, dtab)"
    and asm: "assemble (endianness a) (hashMultiplier a) fl offs names d doffs dtab = Inr buf"
    by (rule save_D)
  have lo: "length offs = length fl" using 1(3) by (rule names_loop_length)
  have ld: "length doffs = length fl" using data_loop_length [OF 1(6)] by simp
  from assemble_layout [OF asm] obtain sfat where
    s: "sfat_nodes (endianness a) (hashMultiplier a) fl offs doffs = Inr sfat"
    and r: "0 \<le> d" "d + int (length dtab) < 2 ^ 32" "length fl < 2 ^ 16"
       "0 \<le> hashMultiplier a" "hashMultiplier a < 2 ^ 32"
    and b: "buf = magic_SARC @ order_bytes (endianness a) (le_bytes2 0x14) @ bom (endianness a)
              @ order_bytes (endianness a) (le_bytes4 (d + int (length dtab)))
              @ order_bytes (endianness a) (le_bytes4 d) @ marker (endianness a)
              @ magic_SFAT @ order_bytes (endianness a) (le_bytes2 0x0C)
              @ order_bytes (endianness a) (le_bytes2 (int (length fl)))
              @ order_bytes (endianness a) (le_bytes4 (hashMultiplier a))
              @ sfat @ sfntHead (endianness a) @ names
              @ replicate (nat (d - (0x28 + int (length sfat) + int (length names)))) 0
              @ dtab"
    by blast
  have sf: "sfat = concat (map (node_bytes (endianness a) (hashMultiplier a)) (zip fl (zip offs doffs)))"
    using s by (rule sfat_nodes_Inr)
  have ls: "length sfat = 16 * length fl"
    unfolding sf using lo ld
    by (subst length_concat_blocks [where k = 16]) auto
  show ?thesis
    by (rule that [OF 1 lo ld r]) (simp add: b header_bytes_def ls sf [symmetric])
qed

lemma header_fields:
  "slice (header_bytes e flen d n m @ rest) 0 4 = magic_SARC"
  "slice (header_bytes e flen d n m @ rest) 4 6 = order_bytes e (le_bytes2 0x14)"
  "slice (header_bytes e flen d n m @ rest) 6 8 = bom e"
  "slice (header_bytes e flen d n m @ rest) 8 12 = order_bytes e (le_bytes4 flen)"
  "slice (header_bytes e flen d n m @ rest) 12 16 = order_bytes e (le_bytes4 d)"
  "slice (header_bytes e flen d n m @ rest) 20 24 = magic_SFAT"
  "slice (header_bytes e flen d n m @ rest) 24 26 = order_bytes e (le_bytes2 0x0C)"
  "slice (header_bytes e flen d n m @ rest) 26 28 = order_bytes e (le_bytes2 (int n))"
  "slice (header_bytes e flen d n m @ rest) 28 32 = order_bytes e (le_bytes4 m)"
  by (simp_all add: slice_def header_bytes_def magic_SARC_def magic_SFAT_def bom_def marker_def)

text \<open>
  Claim C8. The effective data start offset is the one the specification words: the
  larger of the minimum \<open>round_up(0x20 + 0x10 * fileCount + 0x08 + nameTableLength, 0x10)\<close>
  and the caller's value rounded up to 0x10, rounded up further to a multiple of 0x200
  when it equals the minimum; rounding is to the next multiple. Whenever the encoder
  returns a buffer, the data start field of its header holds that value, for the
  file count and name table length of the tree.
\<close>

theorem save_dataStartOffset_spec:
  "choose_dataStartOffset n len arg = spec_dataStartOffset (int n) (int len) arg
   \<and> (save a arg = Some (Inr buf) \<longrightarrow>
        (\<exists>fl0 fl offs names.
           flatten_root (contents a) = Inr fl0
           \<and> sort_flatList (endianness a) (hashMultiplier a) fl0 = Inr fl
           \<and> names_loop fl [] = Inr (offs, names)
           \<and> header_dataStartOffset (endianness a) buf
               = Inr (spec_dataStartOffset (int (length fl)) (int (length names)) arg)))"
proof (intro conjI impI)
  show "choose_dataStartOffset n len arg = spec_dataStartOffset (int n) (int len) arg"
    by (rule choose_dataStartOffset_eq_spec)
next
  assume "save a arg = Some (Inr buf)"
  then obtain fl0 fl offs names d al doffs dtab where
    1: "flatten_root (contents a) = Inr fl0"
    "fl = sort_key (\<lambda>x. spec_hash (fst x) (hashMultiplier a)) fl0"
    "names_loop fl [] = Inr (offs, names)"
    "d = choose_dataStartOffset (length fl) (length names) arg"
    and r: "0 \<le> d" "d + int (length dtab) < 2 ^ 32"
    and b: "buf = header_bytes (endianness a) (d + int (length dtab)) d (length fl) (hashMultiplier a)
           @ concat (map (node_bytes (endianness a) (hashMultiplier a)) (zip fl (zip offs doffs)))
           @ (sfntHead (endianness a) @ names
           @ replicate (nat (d - (0x28 + 0x10 * int (length fl) + int (length names)))) 0
           @ dtab)"
    by (rule save_layout)
  have "d < 2 ^ 32" using r by simp
  then have "header_dataStartOffset (endianness a) buf = Inr d"
    unfolding header_dataStartOffset_def b header_fields using r(1)
    by (simp add: unpack_I_le_bytes4)
  then show "\<exists>fl0 fl offs names.
           flatten_root (contents a) = Inr fl0
           \<and> sort_flatList (endianness a) (hashMultiplier a) fl0 = Inr fl
           \<and> names_loop fl [] = Inr (offs, names)
           \<and> header_dataStartOffset (endianness a) buf
               = Inr (spec_dataStartOffset (int (length fl)) (int (length names)) arg)"
    using 1 by (auto simp add: sort_flatList_Inr choose_dataStartOffset_eq_spec)
qed

lemma sorted_hashes_of_sort_key:
  "sorted (map (\<lambda>x. spec_hash (fst x) m) (sort_key (\<lambda>x. spec_hash (fst x) m) fl0))"
  by (rule sorted_sort_key)

text \<open>
  Claim C6. In every buffer the encoder returns, the hash fields of the index records,
  read in the archive's endianness in record order, are non-decreasing, and there are
  as many of them as the header's node count says.
\<close>

theorem save_sfat_hashes_sorted:
  assumes "save a arg = Some (Inr buf)"
  shows "\<exists>hs. stored_hashes (endianness a) buf = map Inr hs \<and> sorted hs
           \<and> header_nodeCount (endianness a) buf = Inr (int (length hs))"
proof -
  define e where "e = endianness a"
  define m where "m = hashMultiplier a"
  from assms obtain fl0 fl offs names d al doffs dtab where
    fl: "fl = sort_key (\<lambda>x. spec_hash (fst x) m) fl0"
    and lo: "length offs = length fl" "length doffs = length fl"
    and n: "length fl < 2 ^ 16"
    and b: "buf = header_bytes e (d + int (length dtab)) d (length fl) m
           @ concat (map (node_bytes e m) (zip fl (zip offs doffs)))
           @ (sfntHead e @ names
           @ replicate (nat (d - (0x28 + 0x10 * int (length fl) + int (length names)))) 0
           @ dtab)"
    unfolding e_def m_def by (rule save_layout)
  define hs where "hs = map (\<lambda>x. spec_hash (fst x) m) fl"
  have cnt: "header_nodeCount e buf = Inr (int (length fl))"
    unfolding header_nodeCount_def b header_fields using n
    by (simp add: unpack_H_le_bytes2)
  have rec: "unpack_I e (slice buf (0x20 + 0x10 * i) (0x20 + 0x10 * i + 4)) = Inr (hs ! i)"
    if "i < length fl" for i
  proof -
    let ?nodes = "map (node_bytes e m) (zip fl (zip offs doffs))"
    have li: "i < length ?nodes" using that lo by simp
    have "slice buf (32 + 16 * i + 0) (32 + 16 * i + 4) = slice (?nodes ! i) 0 4"
      unfolding b by (rule slice_blocks) (use li in auto)
    also have "?nodes ! i = node_bytes e m (fl ! i, offs ! i, doffs ! i)"
      using that lo by simp
    also have "slice \<dots> 0 4 = order_bytes e (le_bytes4 (spec_hash (fst (fl ! i)) m))"
      by (cases "fl ! i") (simp add: node_bytes_def slice_def)
    finally show ?thesis
      using that spec_hash_range [of "fst (fl ! i)" m]
      by (simp add: unpack_I_le_bytes4 hs_def)
  qed
  have "stored_hashes e buf = map Inr hs"
    unfolding stored_hashes_def cnt
    by (rule nth_equalityI) (use rec in \<open>simp_all add: hs_def\<close>)
  moreover have "sorted hs"
    unfolding hs_def fl by (rule sorted_sort_key)
  moreover have "header_nodeCount e buf = Inr (int (length hs))"
    using cnt by (simp add: hs_def)
  ultimately show ?thesis
    unfolding e_def [symmetric] by blast
qed


subsection \<open>The example archive, encoded\<close>

lemma save_example: "save example_archive 0x70 = Some (Inr example_buffer)"
  by code_simp

theorem save_dataStartOffset_spec_witness:
  "save example_archive 0x70 = Some (Inr example_buffer)
   \<and> choose_dataStartOffset 2 8 0x70 = spec_dataStartOffset 2 8 0x70
   \<and> (\<exists>fl0 fl offs names.
         flatten_root (contents example_archive) = Inr fl0
         \<and> sort_flatList BigEndian 0x65 fl0 = Inr fl
         \<and> names_loop fl [] = Inr (offs, names)
         \<and> header_dataStartOffset BigEndian example_buffer
             = Inr (spec_dataStartOffset (int (length fl)) (int (length names)) 0x70))"
  using save_dataStartOffset_spec [of 2 8 "0x70" example_archive example_buffer] save_example
  by (simp add: example_archive_def)

theorem save_sfat_hashes_sorted_witness:
  "save example_archive 0x70 = Some (Inr example_buffer)
   \<and> (\<exists>hs. stored_hashes BigEndian example_buffer = map Inr hs \<and> sorted hs
           \<and> header_nodeCount BigEndian example_buffer = Inr (int (length hs)))"
  using save_sfat_hashes_sorted [OF save_example] save_example
  by (simp add: example_archive_def)

subsection \<open>The decoder\<close>

lemma load_tables_contents:
  "snd (load_tables a d ds) = Inr k \<Longrightarrow> k \<noteq> 0 \<Longrightarrow>
     contents (fst (load_tables a d ds)) = contents a \<and> endianness (fst (load_tables a d ds)) = endianness a"
  by (auto simp add: load_tables_def Let_def split: if_splits sum.splits prod.splits option.splits)

lemma load_contents:
  "snd (load' a d) = Inr k \<Longrightarrow> k \<noteq> 0 \<Longrightarrow> contents (fst (load' a d)) = contents a"
  by (auto simp add: load'_def Let_def load_tables_contents split: if_splits sum.splits)

lemma load_bad_magic: "slice d 0 4 \<noteq> magic_SARC \<Longrightarrow> load' a d = (a, Inr 1)"
  by (simp add: load'_def)

lemma load_tables_code:
  assumes "snd (load_tables a d ds) = Inr k" and "endianness a = spec_endian d"
  shows "(k = 0 \<and> spec_check5 d \<and> spec_check6 d \<and> spec_check7 d \<and> spec_check8 d)
       \<or> (k = 5 \<and> \<not> spec_check5 d)
       \<or> (k = 6 \<and> spec_check5 d \<and> \<not> spec_check6 d)
       \<or> (k = 7 \<and> spec_check5 d \<and> spec_check6 d \<and> \<not> spec_check7 d)
       \<or> (k = 8 \<and> spec_check5 d \<and> spec_check6 d \<and> spec_check7 d \<and> \<not> spec_check8 d)"
  using assms
  by (auto simp add: load_tables_def Let_def spec_check5_def spec_check6_def spec_check7_def
        spec_check8_def spec_sfnt_offset_def
      split: if_splits sum.splits prod.splits option.splits)

lemma load_code:
  assumes "snd (load' a d) = Inr k"
  shows "(k = 0 \<and> spec_first_violated d = None) \<or> spec_first_violated d = Some k"
proof (cases "spec_check1 d \<and> spec_check2 d \<and> spec_check3 d \<and> spec_check4 d")
  case False
  with assms show ?thesis
    by (auto simp add: load'_def Let_def spec_first_violated_def spec_check1_def spec_check2_def
          spec_check3_def spec_check4_def spec_endian_def
        split: if_splits sum.splits)
next
  case True
  then obtain ds a1 where l: "load' a d = load_tables a1 d ds" and e: "endianness a1 = spec_endian d"
    using assms
    by (auto simp add: load'_def Let_def spec_check1_def spec_check2_def
          spec_check3_def spec_check4_def spec_endian_def
        split: if_splits sum.splits)
  from load_tables_code [OF assms [unfolded l] e] True show ?thesis
    by (auto simp add: spec_first_violated_def)
qed

lemma load_empty_sarc_1: "snd (load' a (empty_sarc[0 := 0x54])) = Inr 1"
  by (simp add: load'_def empty_sarc_def slice_def magic_SARC_def)

lemma load_empty_sarc_2: "snd (load' a (empty_sarc[6 := 0])) = Inr 2"
  by (simp add: load'_def empty_sarc_def slice_def magic_SARC_def)

lemma load_empty_sarc_3: "snd (load' a (empty_sarc[5 := 0x15])) = Inr 3"
  by (simp add: load'_def empty_sarc_def slice_def magic_SARC_def unpack_H_def order_bytes_def)

lemma load_empty_sarc_4: "snd (load' a (empty_sarc[11 := 0x29])) = Inr 4"
  by (simp add: load'_def empty_sarc_def slice_def magic_SARC_def unpack_H_def unpack_I_def order_bytes_def)

lemma load_empty_sarc_5: "snd (load' a (empty_sarc[20 := 0])) = Inr 5"
  by (simp add: load'_def load_tables_def empty_sarc_def slice_def magic_SARC_def magic_SFAT_def unpack_H_def unpack_I_def order_bytes_def)

lemma load_empty_sarc_6: "snd (load' a (empty_sarc[25 := 0x0D])) = Inr 6"
  by (simp add: load'_def load_tables_def empty_sarc_def slice_def magic_SARC_def magic_SFAT_def unpack_H_def unpack_I_def order_bytes_def)

lemma load_empty_sarc_7: "snd (load' a (empty_sarc[32 := 0])) = Inr 7"
  by (simp add: load'_def load_tables_def empty_sarc_def slice_def magic_SARC_def magic_SFAT_def magic_SFNT_def unpack_H_def unpack_I_def order_bytes_def)

lemma load_empty_sarc_8: "snd (load' a (empty_sarc[37 := 9])) = Inr 8"
  by (simp add: load'_def load_tables_def empty_sarc_def slice_def magic_SARC_def magic_SFAT_def magic_SFNT_def unpack_H_def unpack_I_def order_bytes_def)

lemma load_empty_sarc_0: "load' a empty_sarc = (\<lparr>contents = [], endianness = BigEndian, hashMultiplier = 0x65\<rparr>, Inr 0)"
  by (simp add: load'_def load_tables_def empty_sarc_def slice_def magic_SARC_def magic_SFAT_def magic_SFNT_def unpack_H_def unpack_I_def order_bytes_def)

lemma load_truncated_sarc: "load' a truncated_sarc = (a\<lparr>endianness := BigEndian\<rparr>, Inl StructError)"
  by (simp add: load'_def truncated_sarc_def slice_def magic_SARC_def unpack_H_def unpack_I_def order_bytes_def)

lemma first_violated_truncated_sarc: "spec_first_violated truncated_sarc = Some 5"
  by (simp add: spec_first_violated_def spec_check1_def spec_check2_def spec_check3_def spec_check4_def spec_check5_def
      spec_endian_def truncated_sarc_def slice_def magic_SARC_def magic_SFAT_def unpack_H_def unpack_I_def order_bytes_def)

lemma first_violated_range: "spec_first_violated d = Some k \<Longrightarrow> 1 \<le> k \<and> k \<le> 8"
  by (auto simp add: spec_first_violated_def split: if_splits)

lemma length_slice: "b \<le> length xs \<Longrightarrow> length (slice xs a b) = b - a"
  by (simp add: slice_def)

lemma unpack_I_slice:
  "a + 4 \<le> length d \<Longrightarrow> unpack_I e (slice d a (a + 4)) = Inr (le_value (order_bytes e (slice d a (a + 4))))"
  by (simp add: unpack_I_def length_slice)

lemma unpack_H_slice:
  "a + 2 \<le> length d \<Longrightarrow> unpack_H e (slice d a (a + 2)) = Inr (le_value (order_bytes e (slice d a (a + 2))))"
  by (simp add: unpack_H_def length_slice)

lemma read_node_returns:
  assumes "off + 16 \<le> length d"
  shows "\<exists>r. read_node e d off = Inr r"
proof -
  have a: "length (slice d (off + 5) (off + 5 + 3)) = 3" "length (slice d (off + 4) (off + 4 + 3)) = 3"
    using assms by (simp_all add: length_slice)
  have b: "unpack_I e (slice d (off + 8) (off + 0x0C)) = Inr (le_value (order_bytes e (slice d (off + 8) (off + 0x0C))))"
    using unpack_I_slice [of "off + 8" d e] assms by (simp add: add.assoc)
  have c: "unpack_I e (slice d (off + 0x0C) (off + 0x10)) = Inr (le_value (order_bytes e (slice d (off + 0x0C) (off + 0x10))))"
    using unpack_I_slice [of "off + 12" d e] assms by (simp add: add.assoc)
  show ?thesis
    using assms a b c
    by (cases e) (simp_all add: read_node_def Let_def bind_e_def unpack_I_def)
qed

lemma map_e_returns: "\<forall>x \<in> set xs. \<exists>y. f x = Inr y \<Longrightarrow> \<exists>ys. map_e f xs = Inr ys"
  by (induction xs) (auto split: sum.splits)

lemma read_nodes_return:
  assumes "0x20 + 0x10 * n \<le> length d"
  shows "\<exists>ns. map_e (read_node e d) (map (\<lambda>nodeNum. 0x20 + 0x10 * nodeNum) [0 ..< n]) = Inr ns"
proof (rule map_e_returns, rule ballI)
  fix x assume "x \<in> set (map (\<lambda>nodeNum. 0x20 + 0x10 * nodeNum) [0 ..< n])"
  then obtain i where "i < n" "x = 0x20 + 0x10 * i" by auto
  with assms have "x + 16 \<le> length d" by simp
  then show "\<exists>y. read_node e d x = Inr y" by (rule read_node_returns)
qed

lemma add_files_error:
  "add_files d off ds nodes cur = (c, Some x) \<Longrightarrow> x = UnicodeDecodeError"
proof (induction nodes arbitrary: cur)
  case Nil
  then show ?case by simp
next
  case (Cons node nodes)
  then show ?case
    by (cases node)
       (auto simp add: bytes_to_string_def utf8_decode_def split: sum.splits option.splits)
qed

lemma load_tables_long:
  assumes "spec_sfnt_offset d + 6 \<le> length d" and "endianness a = spec_endian d"
  shows "(\<exists>k. snd (load_tables a d ds) = Inr k)
     \<or> (spec_check5 d \<and> spec_check6 d \<and> spec_check7 d \<and> spec_check8 d
        \<and> snd (load_tables a d ds) = Inl UnicodeDecodeError)"
proof -
  define e where "e = spec_endian d"
  have l: "38 \<le> length d" using assms(1) by (simp add: spec_sfnt_offset_def)
  have h6: "unpack_H e (slice d 0x18 0x1A) = Inr (le_value (order_bytes e (slice d 0x18 0x1A)))"
    using unpack_H_slice [of "0x18" d e] l by simp
  have hn: "unpack_H e (slice d 0x1A 0x1C) = Inr (le_value (order_bytes e (slice d 0x1A 0x1C)))"
    using unpack_H_slice [of "0x1A" d e] l by simp
  have hm: "unpack_I e (slice d 0x1C 0x20) = Inr (le_value (order_bytes e (slice d 0x1C 0x20)))"
    using unpack_I_slice [of "0x1C" d e] l by simp
  define n where "n = nat (le_value (order_bytes e (slice d 0x1A 0x1C)))"
  have off: "spec_sfnt_offset d = 0x20 + 0x10 * n"
    by (simp add: spec_sfnt_offset_def e_def [symmetric] hn n_def)
  obtain ns where ns: "map_e (read_node e d) (map (\<lambda>nodeNum. 0x20 + 0x10 * nodeNum) [0 ..< n]) = Inr ns"
    using read_nodes_return [of n d e] assms(1) off by auto
  have h8: "unpack_H e (slice d (0x20 + 0x10 * n + 0x04) (0x20 + 0x10 * n + 0x06))
          = Inr (le_value (order_bytes e (slice d (0x20 + 0x10 * n + 0x04) (0x20 + 0x10 * n + 0x06))))"
    using unpack_H_slice [of "0x20 + 0x10 * n + 0x04" d e] assms(1) off by (simp add: add.assoc)
  obtain c r where af: "add_files d (0x20 + 0x10 * n + 0x08) ds ns [] = (c, r)"
    by (cases "add_files d (0x20 + 0x10 * n + 0x08) ds ns []")
  have r: "r = None \<or> r = Some UnicodeDecodeError"
    using add_files_error [of d _ ds ns "[]" c] af by (cases r) auto
  show ?thesis
    unfolding load_tables_def Let_def assms(2) e_def [symmetric] spec_check5_def spec_check6_def
      spec_check7_def spec_check8_def off h6 hn hm sum.case n_def [symmetric] ns h8 af
    using r by auto
qed

lemma load_long:
  assumes "spec_sfnt_offset d + 6 \<le> length d"
  shows "(\<exists>k. snd (load' a d) = Inr k)
     \<or> (spec_first_violated d = None \<and> snd (load' a d) = Inl UnicodeDecodeError)"
proof (cases "spec_check1 d \<and> spec_check2 d \<and> spec_check3 d \<and> spec_check4 d")
  case False
  define e where "e = spec_endian d"
  have l: "38 \<le> length d" using assms(1) by (simp add: spec_sfnt_offset_def)
  have h3: "unpack_H e (slice d 0x04 0x06) = Inr (le_value (order_bytes e (slice d 0x04 0x06)))"
    using unpack_H_slice [of "0x04" d e] l by simp
  have h4: "unpack_I e (slice d 0x08 0x0C) = Inr (le_value (order_bytes e (slice d 0x08 0x0C)))"
    using unpack_I_slice [of "0x08" d e] l by simp
  have "\<exists>k. snd (load' a d) = Inr k"
    using False h3 h4
    unfolding load'_def spec_check1_def spec_check2_def spec_check3_def spec_check4_def Let_def
      e_def spec_endian_def
    by (auto split: if_splits)
  then show ?thesis ..
next
  case True
  define e where "e = spec_endian d"
  have l: "38 \<le> length d" using assms(1) by (simp add: spec_sfnt_offset_def)
  have h5: "unpack_I e (slice d 0x0C 0x10) = Inr (le_value (order_bytes e (slice d 0x0C 0x10)))"
    using unpack_I_slice [of "0x0C" d e] l by simp
  have "load' a d = load_tables (a\<lparr>endianness := e\<rparr>) d (le_value (order_bytes e (slice d 0x0C 0x10)))"
    using True h5
    unfolding load'_def spec_check1_def spec_check2_def spec_check3_def spec_check4_def Let_def
      e_def spec_endian_def
    by (auto split: if_splits)
  moreover have en: "endianness (a\<lparr>endianness := e\<rparr>) = spec_endian d" by (simp add: e_def)
  ultimately show ?thesis
    using load_tables_long [OF assms en, of "le_value (order_bytes e (slice d 0x0C 0x10))"] True
    by (auto simp add: spec_first_violated_def)
qed

lemma load_first_violated:
  assumes "spec_sfnt_offset d + 6 \<le> length d" and "spec_first_violated d = Some k"
  shows "snd (load' a d) = Inr k"
proof -
  from load_long [OF assms(1), of a] assms(2) obtain k' where k: "snd (load' a d) = Inr k'"
    by auto
  from load_code [OF k] assms(2) show ?thesis using k by auto
qed


lemma bom_length:
  assumes "spec_check2 d"
  shows "8 \<le> length d"
proof -
  from assms have "length (slice d 0x06 0x08) = 2" by (auto simp add: spec_check2_def)
  then show ?thesis by (simp add: slice_def)
qed

lemma load_exact_early:
  assumes "spec_first_violated d = Some k" and "k \<le> 4" and "spec_fields_end k d \<le> length d"
  shows "snd (load' a d) = Inr k"
proof -
  define e where "e = spec_endian d"
  consider "\<not> spec_check1 d" "k = 1" | "spec_check1 d" "\<not> spec_check2 d" "k = 2"
    | "spec_check1 d" "spec_check2 d" "\<not> spec_check3 d" "k = 3"
    | "spec_check1 d" "spec_check2 d" "spec_check3 d" "\<not> spec_check4 d" "k = 4"
    using assms(1,2) by (auto simp add: spec_first_violated_def split: if_splits)
  then show ?thesis
  proof cases
    case 1
    then show ?thesis by (simp add: load'_def spec_check1_def)
  next
    case 2
    then show ?thesis by (simp add: load'_def spec_check1_def spec_check2_def)
  next
    case 3
    have "unpack_H e (slice d 0x04 0x06) = Inr (le_value (order_bytes e (slice d 0x04 0x06)))"
      using unpack_H_slice [of "0x04" d e] bom_length [OF 3(2)] by simp
    with 3 show ?thesis
      unfolding load'_def Let_def spec_check1_def spec_check2_def spec_check3_def
        e_def spec_endian_def
      by (auto split: if_splits)
  next
    case 4
    have "12 \<le> length d" using assms(3) 4(5) by (simp add: spec_fields_end_def)
    then have "unpack_I e (slice d 0x08 0x0C) = Inr (le_value (order_bytes e (slice d 0x08 0x0C)))"
      using unpack_I_slice [of "0x08" d e] by simp
    with 4 show ?thesis
      unfolding load'_def Let_def spec_check1_def spec_check2_def spec_check3_def spec_check4_def
        e_def spec_endian_def
      by (auto split: if_splits)
  qed
qed

lemma load_tables_exact:
  assumes "endianness a = spec_endian d"
    and "\<not> spec_check5 d \<and> k = 5
       \<or> spec_check5 d \<and> \<not> spec_check6 d \<and> k = 6
       \<or> spec_check5 d \<and> spec_check6 d \<and> \<not> spec_check7 d \<and> k = 7
       \<or> spec_check5 d \<and> spec_check6 d \<and> spec_check7 d \<and> \<not> spec_check8 d \<and> k = 8"
    and "spec_fields_end k d \<le> length d"
  shows "snd (load_tables a d ds) = Inr k"
proof -
  define e where "e = spec_endian d"
  consider "\<not> spec_check5 d" "k = 5" | "spec_check5 d" "\<not> spec_check6 d" "k = 6"
    | "spec_check5 d" "spec_check6 d" "\<not> spec_check7 d" "k = 7"
    | "spec_check5 d" "spec_check6 d" "spec_check7 d" "\<not> spec_check8 d" "k = 8"
    using assms(2) by blast
  then show ?thesis
  proof cases
    case 1
    then show ?thesis by (simp add: load_tables_def spec_check5_def)
  next
    case 2
    have "0x1A \<le> length d" using assms(3) 2(3) by (simp add: spec_fields_end_def)
    then have "unpack_H e (slice d 0x18 0x1A) = Inr (le_value (order_bytes e (slice d 0x18 0x1A)))"
      using unpack_H_slice [of "0x18" d e] by simp
    with 2 show ?thesis
      unfolding load_tables_def Let_def assms(1) e_def [symmetric] spec_check5_def spec_check6_def
      by auto
  next
    case 3
    have h6: "unpack_H e (slice d 0x18 0x1A) = Inr 0x0C"
      using 3(2) by (simp add: spec_check6_def e_def)
    have l: "0x20 \<le> length d" "spec_sfnt_offset d \<le> length d"
      using assms(3) 3(4) by (simp_all add: spec_fields_end_def spec_sfnt_offset_def)
    have hn: "unpack_H e (slice d 0x1A 0x1C) = Inr (le_value (order_bytes e (slice d 0x1A 0x1C)))"
      using unpack_H_slice [of "0x1A" d e] l by simp
    have hm: "unpack_I e (slice d 0x1C 0x20) = Inr (le_value (order_bytes e (slice d 0x1C 0x20)))"
      using unpack_I_slice [of "0x1C" d e] l by simp
    define n where "n = nat (le_value (order_bytes e (slice d 0x1A 0x1C)))"
    have off: "spec_sfnt_offset d = 0x20 + 0x10 * n"
      by (simp add: spec_sfnt_offset_def e_def [symmetric] hn n_def)
    obtain ns where ns: "map_e (read_node e d) (map (\<lambda>nodeNum. 0x20 + 0x10 * nodeNum) [0 ..< n]) = Inr ns"
      using read_nodes_return [of n d e] l off by auto
    from 3(1,3) show ?thesis
      unfolding load_tables_def Let_def assms(1) e_def [symmetric] spec_check5_def
        spec_check7_def off h6 hn hm sum.case n_def [symmetric] ns 3(4)
      by auto
  next
    case 4
    have h6: "unpack_H e (slice d 0x18 0x1A) = Inr 0x0C"
      using 4(2) by (simp add: spec_check6_def e_def)
    have l: "0x20 \<le> length d" "spec_sfnt_offset d + 6 \<le> length d"
      using assms(3) 4(5) by (simp_all add: spec_fields_end_def spec_sfnt_offset_def)
    have hn: "unpack_H e (slice d 0x1A 0x1C) = Inr (le_value (order_bytes e (slice d 0x1A 0x1C)))"
      using unpack_H_slice [of "0x1A" d e] l by simp
    have hm: "unpack_I e (slice d 0x1C 0x20) = Inr (le_value (order_bytes e (slice d 0x1C 0x20)))"
      using unpack_I_slice [of "0x1C" d e] l by simp
    define n where "n = nat (le_value (order_bytes e (slice d 0x1A 0x1C)))"
    have off: "spec_sfnt_offset d = 0x20 + 0x10 * n"
      by (simp add: spec_sfnt_offset_def e_def [symmetric] hn n_def)
    obtain ns where ns: "map_e (read_node e d) (map (\<lambda>nodeNum. 0x20 + 0x10 * nodeNum) [0 ..< n]) = Inr ns"
      using read_nodes_return [of n d e] l off by auto
    have h8: "unpack_H e (slice d (0x20 + 0x10 * n + 0x04) (0x20 + 0x10 * n + 0x06))
          = Inr (le_value (order_bytes e (slice d (0x20 + 0x10 * n + 0x04) (0x20 + 0x10 * n + 0x06))))"
      using unpack_H_slice [of "0x20 + 0x10 * n + 0x04" d e] l off by (simp add: add.assoc)
    from 4(1,3,4) show ?thesis
      unfolding load_tables_def Let_def assms(1) e_def [symmetric] spec_check5_def
        spec_check7_def spec_check8_def off h6 hn hm sum.case n_def [symmetric] ns h8 4(5)
      by auto
  qed
qed

lemma load_exact:
  assumes "spec_first_violated d = Some k" and "spec_fields_end k d \<le> length d"
  shows "snd (load' a d) = Inr k"
proof (cases "k \<le> 4")
  case True
  with assms show ?thesis by (intro load_exact_early)
next
  case False
  define e where "e = spec_endian d"
  from assms(1) False have c: "spec_check1 d" "spec_check2 d" "spec_check3 d" "spec_check4 d"
    and t: "\<not> spec_check5 d \<and> k = 5
       \<or> spec_check5 d \<and> \<not> spec_check6 d \<and> k = 6
       \<or> spec_check5 d \<and> spec_check6 d \<and> \<not> spec_check7 d \<and> k = 7
       \<or> spec_check5 d \<and> spec_check6 d \<and> spec_check7 d \<and> \<not> spec_check8 d \<and> k = 8"
    by (auto simp add: spec_first_violated_def split: if_splits)
  have "16 \<le> length d"
    using assms(2) t by (auto simp add: spec_fields_end_def spec_sfnt_offset_def)
  then have h5: "unpack_I e (slice d 0x0C 0x10) = Inr (le_value (order_bytes e (slice d 0x0C 0x10)))"
    using unpack_I_slice [of "0x0C" d e] by simp
  have "load' a d = load_tables (a\<lparr>endianness := e\<rparr>) d (le_value (order_bytes e (slice d 0x0C 0x10)))"
    using c h5
    unfolding load'_def spec_check1_def spec_check2_def spec_check3_def spec_check4_def Let_def
      e_def spec_endian_def
    by (auto split: if_splits)
  moreover have "endianness (a\<lparr>endianness := e\<rparr>) = spec_endian d" by (simp add: e_def)
  ultimately show ?thesis
    using load_tables_exact [OF _ t assms(2), of "a\<lparr>endianness := e\<rparr>"] by simp
qed

lemma spec_fields_end_le: "spec_fields_end k d \<le> spec_sfnt_offset d + 6"
  by (simp add: spec_fields_end_def spec_sfnt_offset_def)


text \<open>
  Claim C4, as stated, fails on a truncated buffer: the twelve bytes of
  \<open>truncated_sarc\<close> pass the first four checks and hold no SFAT magic, so the first
  violated check is the fifth, yet the decoder raises \<^verbatim>\<open>struct.error\<close> when it reads the
  data start offset, and reports none of the eight kinds.
\<close>

theorem load_truncated_counterexample:
  "spec_first_violated truncated_sarc = Some 5
   \<and> snd (load' (new_archive BigEndian 0x65) truncated_sarc) = Inl StructError"
  by (simp add: first_violated_truncated_sarc load_truncated_sarc)

text \<open>
  Claim C4, amended. A buffer whose first four bytes are not the outer magic is
  answered with code 1 whatever else it holds. For every buffer that holds the fields
  the decoder reads up to its first violated check (\<open>spec_fields_end\<close>: twelve bytes
  for the total length, sixteen for the SFAT magic, 0x1A for the SFAT header length,
  the index records for the SFNT magic, six bytes more for the SFNT header length),
  and so for every buffer that reaches six bytes past its index records, the decoder
  returns the number of the first violated check, in the order outer magic, byte order
  mark, outer header length, total length, SFAT magic, SFAT header length, SFNT magic,
  SFNT header length; when such a buffer violates no check, the decoder returns 0
  or raises on a name that is not UTF-8. On every buffer, a code that the decoder
  returns is 0 with no check violated, or the number of the first violated check.
  Each of the eight codes is returned for some buffer: the empty archive with one byte
  changed.
\<close>

theorem load_validation_order:
  "(slice d 0 0x04 \<noteq> magic_SARC \<longrightarrow> snd (load' a d) = Inr 1)
   \<and> (spec_first_violated d = Some k \<and> spec_fields_end k d \<le> length d
        \<longrightarrow> snd (load' a d) = Inr k)
   \<and> (spec_first_violated d = Some k \<and> spec_sfnt_offset d + 0x06 \<le> length d
        \<longrightarrow> snd (load' a d) = Inr k)
   \<and> (spec_first_violated d = None \<and> spec_sfnt_offset d + 0x06 \<le> length d
        \<longrightarrow> snd (load' a d) = Inr 0 \<or> snd (load' a d) = Inl UnicodeDecodeError)
   \<and> (snd (load' a d) = Inr k \<longrightarrow>
        (k = 0 \<and> spec_first_violated d = None) \<or> spec_first_violated d = Some k)
   \<and> snd (load' a (empty_sarc[0 := 0x54])) = Inr 1
   \<and> snd (load' a (empty_sarc[6 := 0])) = Inr 2
   \<and> snd (load' a (empty_sarc[5 := 0x15])) = Inr 3
   \<and> snd (load' a (empty_sarc[11 := 0x29])) = Inr 4
   \<and> snd (load' a (empty_sarc[20 := 0])) = Inr 5
   \<and> snd (load' a (empty_sarc[25 := 0x0D])) = Inr 6
   \<and> snd (load' a (empty_sarc[32 := 0])) = Inr 7
   \<and> snd (load' a (empty_sarc[37 := 9])) = Inr 8
   \<and> snd (load' a empty_sarc) = Inr 0"
proof -
  have 1: "slice d 0 0x04 \<noteq> magic_SARC \<longrightarrow> snd (load' a d) = Inr 1"
    by (simp add: load_bad_magic)
  have 2: "spec_first_violated d = Some k \<and> spec_fields_end k d \<le> length d
        \<longrightarrow> snd (load' a d) = Inr k"
    using load_exact [of d k a] by blast
  have 3: "spec_first_violated d = Some k \<and> spec_sfnt_offset d + 0x06 \<le> length d
        \<longrightarrow> snd (load' a d) = Inr k"
    using load_first_violated [of d k a] by blast
  have 4: "spec_first_violated d = None \<and> spec_sfnt_offset d + 0x06 \<le> length d
        \<longrightarrow> snd (load' a d) = Inr 0 \<or> snd (load' a d) = Inl UnicodeDecodeError"
  proof (intro impI, elim conjE)
    assume n: "spec_first_violated d = None" and l: "spec_sfnt_offset d + 0x06 \<le> length d"
    from load_long [OF l, of a] show
      "snd (load' a d) = Inr 0 \<or> snd (load' a d) = Inl UnicodeDecodeError"
    proof
      assume "\<exists>k. snd (load' a d) = Inr k"
      then obtain k' where k: "snd (load' a d) = Inr k'" ..
      from load_code [OF k] n have "k' = 0" by simp
      with k show ?thesis by simp
    next
      assume "spec_first_violated d = None \<and> snd (load' a d) = Inl UnicodeDecodeError"
      then show ?thesis by simp
    qed
  qed
  have 5: "snd (load' a d) = Inr k \<longrightarrow>
        (k = 0 \<and> spec_first_violated d = None) \<or> spec_first_violated d = Some k"
    using load_code [of a d k] by blast
  show ?thesis
    using 1 2 3 4 5
    by (simp add: load_empty_sarc_0 load_empty_sarc_1 load_empty_sarc_2
        load_empty_sarc_3 load_empty_sarc_4 load_empty_sarc_5 load_empty_sarc_6
        load_empty_sarc_7 load_empty_sarc_8)
qed

theorem load_validation_order_witness:
  "slice (empty_sarc[0 := 0x54]) 0 0x04 \<noteq> magic_SARC
   \<and> snd (load' (new_archive LittleEndian 0) (empty_sarc[0 := 0x54])) = Inr 1
   \<and> spec_first_violated (empty_sarc[11 := 0x29]) = Some 4
   \<and> spec_fields_end 4 (empty_sarc[11 := 0x29]) \<le> length (empty_sarc[11 := 0x29])
   \<and> spec_sfnt_offset (empty_sarc[11 := 0x29]) + 0x06 \<le> length (empty_sarc[11 := 0x29])
   \<and> snd (load' (new_archive LittleEndian 0) (empty_sarc[11 := 0x29])) = Inr 4
   \<and> spec_first_violated empty_sarc = None
   \<and> spec_sfnt_offset empty_sarc + 0x06 \<le> length empty_sarc
   \<and> (snd (load' (new_archive LittleEndian 0) empty_sarc) = Inr 0
        \<or> snd (load' (new_archive LittleEndian 0) empty_sarc) = Inl UnicodeDecodeError)"
proof -
  have m: "slice (empty_sarc[0 := 0x54]) 0 0x04 \<noteq> magic_SARC"
    by (simp add: empty_sarc_def slice_def magic_SARC_def)
  have v: "spec_first_violated (empty_sarc[11 := 0x29]) = Some 4"
    by code_simp
  have f: "spec_fields_end 4 (empty_sarc[11 := 0x29]) \<le> length (empty_sarc[11 := 0x29])"
    by code_simp
  have o: "spec_sfnt_offset (empty_sarc[11 := 0x29]) + 0x06 \<le> length (empty_sarc[11 := 0x29])"
    by code_simp
  have n: "spec_first_violated empty_sarc = None"
    by code_simp
  have p: "spec_sfnt_offset empty_sarc + 0x06 \<le> length empty_sarc"
    by code_simp
  show ?thesis
    using m v f o n p
      load_validation_order [of "empty_sarc[0 := 0x54]" "new_archive LittleEndian 0" 1]
      load_validation_order [of "empty_sarc[11 := 0x29]" "new_archive LittleEndian 0" 4]
      load_validation_order [of empty_sarc "new_archive LittleEndian 0" 0]
    by simp
qed

text \<open>
  Claim C10. Whenever the decoder returns one of the codes 1 to 8, the contents of
  the archive are what they were before the call. The other two fields can have
  changed by then: a little-endian archive given a big-endian buffer with a bad header
  length is left big-endian with code 3, and an archive given a buffer without SFNT
  magic is left with the buffer's hash multiplier with code 7.
\<close>

theorem load_failure_keeps_contents:
  "(snd (load' a d) = Inr k \<and> k \<noteq> 0 \<longrightarrow>
      contents (fst (load' a d)) = contents a \<and> 1 \<le> k \<and> k \<le> 8)
   \<and> load' (new_archive LittleEndian 0) (empty_sarc[5 := 0x15])
       = (new_archive BigEndian 0, Inr 3)
   \<and> load' (new_archive BigEndian 0) (empty_sarc[32 := 0])
       = (new_archive BigEndian 0x65, Inr 7)"
proof -
  have "contents (fst (load' a d)) = contents a \<and> 1 \<le> k \<and> k \<le> 8"
    if "snd (load' a d) = Inr k" and "k \<noteq> 0"
    using that load_contents [of a d k] load_code [of a d k] first_violated_range [of d k]
    by auto
  moreover have "load' (new_archive LittleEndian 0) (empty_sarc[5 := 0x15])
       = (new_archive BigEndian 0, Inr 3)"
    by (simp add: load'_def empty_sarc_def slice_def magic_SARC_def unpack_H_def
          order_bytes_def new_archive_def)
  moreover have "load' (new_archive BigEndian 0) (empty_sarc[32 := 0])
       = (new_archive BigEndian 0x65, Inr 7)"
    by (simp add: load'_def load_tables_def empty_sarc_def slice_def magic_SARC_def
          magic_SFAT_def magic_SFNT_def unpack_H_def unpack_I_def order_bytes_def
          new_archive_def)
  ultimately show ?thesis by blast
qed

theorem load_failure_keeps_contents_witness:
  "snd (load' example_archive (empty_sarc[11 := 0x29])) = Inr 4 \<and> (4::int) \<noteq> 0
   \<and> contents (fst (load' example_archive (empty_sarc[11 := 0x29])))
       = contents example_archive"
  using load_failure_keeps_contents [of example_archive "empty_sarc[11 := 0x29]" 4]
    load_empty_sarc_4 [of example_archive]
  by simp

subsection \<open>UTF-8 encoding and decoding\<close>

lemma utf8_char_1:
  assumes "c < 0x80"
  shows "utf8_char c = Some [c]" "utf8_dec ([c] @ rest) = map_option ((#) c) (utf8_dec rest)"
  using assms by (simp_all add: utf8_char_def)

lemma utf8_char_2:
  assumes "0x80 \<le> c" "c < 0x800"
  shows "utf8_char c = Some [0xC0 + c div 64, 0x80 + c mod 64]"
    "utf8_dec ([0xC0 + c div 64, 0x80 + c mod 64] @ rest) = map_option ((#) c) (utf8_dec rest)"
proof -
  show "utf8_char c = Some [0xC0 + c div 64, 0x80 + c mod 64]"
    using assms by (simp add: utf8_char_def)
  have a: "2 \<le> c div 64" "c div 64 < 32" using assms by simp_all
  have b: "c mod 64 < 64" by simp
  have c: "c div 64 * 64 + c mod 64 = c" by simp
  show "utf8_dec ([0xC0 + c div 64, 0x80 + c mod 64] @ rest) = map_option ((#) c) (utf8_dec rest)"
    using a b c by (simp add: cont_byte_def)
qed

lemma utf8_char_3:
  assumes "0x800 \<le> c" "c < 0x10000" "\<not> (0xD800 \<le> c \<and> c < 0xE000)"
  shows "utf8_char c = Some [0xE0 + c div 4096, 0x80 + c div 64 mod 64, 0x80 + c mod 64]"
    "utf8_dec ([0xE0 + c div 4096, 0x80 + c div 64 mod 64, 0x80 + c mod 64] @ rest)
       = map_option ((#) c) (utf8_dec rest)"
proof -
  show "utf8_char c = Some [0xE0 + c div 4096, 0x80 + c div 64 mod 64, 0x80 + c mod 64]"
    using assms by (simp add: utf8_char_def)
  define q where "q = c div 64"
  define r where "r = c mod 64"
  define q1 where "q1 = q div 64"
  define r1 where "r1 = q mod 64"
  have c: "c = q * 64 + r" by (simp add: q_def r_def)
  have q: "q = q1 * 64 + r1" by (simp add: q1_def r1_def)
  have r: "r < 64" "r1 < 64" by (simp_all add: r_def r1_def)
  have d: "c div 4096 = q1" by (simp add: q1_def q_def div_mult2_eq)
  have a: "q1 < 16" using assms(2) c q r by arith
  have e0: "32 \<le> r1" if "q1 = 0" using that assms(1) c q r by arith
  have ed: "r1 < 32" if "q1 = 13" using that assms(3) c q r by arith
  have v: "q1 * 4096 + r1 * 64 + r = c" using c q by arith
  show "utf8_dec ([0xE0 + c div 4096, 0x80 + c div 64 mod 64, 0x80 + c mod 64] @ rest)
       = map_option ((#) c) (utf8_dec rest)"
    unfolding d q_def [symmetric] r_def [symmetric] r1_def [symmetric]
    using a r e0 ed v by (simp add: cont_byte_def)
qed

lemma utf8_char_4:
  assumes "0x10000 \<le> c" "c < 0x110000"
  shows "utf8_char c = Some [0xF0 + c div 262144, 0x80 + c div 4096 mod 64,
                             0x80 + c div 64 mod 64, 0x80 + c mod 64]"
    "utf8_dec ([0xF0 + c div 262144, 0x80 + c div 4096 mod 64,
                0x80 + c div 64 mod 64, 0x80 + c mod 64] @ rest)
       = map_option ((#) c) (utf8_dec rest)"
proof -
  show "utf8_char c = Some [0xF0 + c div 262144, 0x80 + c div 4096 mod 64,
                             0x80 + c div 64 mod 64, 0x80 + c mod 64]"
    using assms by (simp add: utf8_char_def)
  define q where "q = c div 64"
  define r where "r = c mod 64"
  define q1 where "q1 = q div 64"
  define r1 where "r1 = q mod 64"
  define q2 where "q2 = q1 div 64"
  define r2 where "r2 = q1 mod 64"
  have c: "c = q * 64 + r" by (simp add: q_def r_def)
  have q: "q = q1 * 64 + r1" by (simp add: q1_def r1_def)
  have q1: "q1 = q2 * 64 + r2" by (simp add: q2_def r2_def)
  have r: "r < 64" "r1 < 64" "r2 < 64" by (simp_all add: r_def r1_def r2_def)
  have d1: "c div 4096 = q1" by (simp add: q1_def q_def div_mult2_eq)
  have d2: "c div 262144 = q2" by (simp add: q2_def q1_def q_def div_mult2_eq)
  have a: "q2 < 5" using assms(2) c q q1 r by arith
  have e0: "16 \<le> r2" if "q2 = 0" using that assms(1) c q q1 r by arith
  have e4: "r2 < 16" if "q2 = 4" using that assms(2) c q q1 r by arith
  have v: "q2 * 262144 + r2 * 4096 + r1 * 64 + r = c" using c q q1 by arith
  show "utf8_dec ([0xF0 + c div 262144, 0x80 + c div 4096 mod 64,
                0x80 + c div 64 mod 64, 0x80 + c mod 64] @ rest)
       = map_option ((#) c) (utf8_dec rest)"
    unfolding d1 d2 q_def [symmetric] r_def [symmetric] r1_def [symmetric] r2_def [symmetric]
    using a r e0 e4 v by (simp add: cont_byte_def)
qed

lemma utf8_char_encodable:
  assumes "encodable_char c"
  shows "\<exists>bs. utf8_char c = Some bs \<and> (\<forall>b \<in> set bs. b < 256 \<and> (c \<noteq> 0 \<longrightarrow> b \<noteq> 0))
           \<and> (\<forall>rest. utf8_dec (bs @ rest) = map_option ((#) c) (utf8_dec rest))"
proof -
  consider "c < 0x80" | "0x80 \<le> c" "c < 0x800"
    | "0x800 \<le> c" "c < 0x10000" "\<not> (0xD800 \<le> c \<and> c < 0xE000)"
    | "0x10000 \<le> c" "c < 0x110000"
    using assms unfolding encodable_char_def by arith
  then show ?thesis
  proof cases
    case 1
    then show ?thesis using utf8_char_1 [OF 1] by auto
  next
    case 2
    have "c div 64 < 32" using 2 by simp
    then show ?thesis using utf8_char_2 [OF 2] by auto
  next
    case 3
    have "c div 4096 < 16" using 3 by simp
    then show ?thesis using utf8_char_3 [OF 3] by auto
  next
    case 4
    have "c div 262144 < 5" using 4 by simp
    then show ?thesis using utf8_char_4 [OF 4] by auto
  qed
qed

lemma utf8_roundtrip:
  assumes "\<forall>c \<in> set s. encodable_char c"
  shows "\<exists>enc. utf8_encode s = Inr enc \<and> utf8_dec (map unat enc @ rest) = map_option ((@) s) (utf8_dec rest)
           \<and> (0 \<notin> set s \<longrightarrow> 0 \<notin> set enc)"
  using assms
proof (induction s)
  case Nil
  show ?case by (simp add: option.map_ident)
next
  case (Cons c s)
  then obtain enc where e: "utf8_encode s = Inr enc"
    "utf8_dec (map unat enc @ rest) = map_option ((@) s) (utf8_dec rest)"
    "0 \<notin> set s \<longrightarrow> 0 \<notin> set enc"
    by auto
  from Cons.prems obtain bs where b: "utf8_char c = Some bs"
    "\<forall>b \<in> set bs. b < 256 \<and> (c \<noteq> 0 \<longrightarrow> b \<noteq> 0)"
    "\<forall>rest. utf8_dec (bs @ rest) = map_option ((#) c) (utf8_dec rest)"
    using utf8_char_encodable [of c] by auto
  have u: "map unat (map of_nat bs :: byte list) = bs"
    using b(2) by (induction bs) (simp_all add: unat_of_nat)
  have z: "c \<noteq> 0 \<Longrightarrow> 0 \<notin> set (map of_nat bs :: byte list)"
  proof
    assume "c \<noteq> 0" "0 \<in> set (map of_nat bs :: byte list)"
    then obtain x where "x \<in> set bs" "(of_nat x :: byte) = 0" by auto
    with b(2) \<open>c \<noteq> 0\<close> have "x < 256" "x \<noteq> 0" "unat (of_nat x :: byte) = 0" by auto
    then show False by (simp add: unat_of_nat)
  qed
  show ?case
    using e b(1,3) u z
    by (auto simp add: append_e_def option.map_comp comp_def)
qed


subsection \<open>Flattening a tree and rebuilding it\<close>

lemma flat_members_flat_of:
  "wf_entries c \<and> 0x5C \<notin> set path0 \<and> path0 \<noteq> [] \<and> last path0 \<noteq> 0x2F \<longrightarrow>
     addToFlatList c path0 = Inr (map (\<lambda>(p, f). (path0 @ [0x2F] @ p, f)) (flat_of c))"
  "wf_entries c \<and> 0x5C \<notin> set path \<longrightarrow>
     flat_members c path = Inr (map (\<lambda>(p, f). (path @ p, f)) (flat_of c))"
proof (induction c path0 and c path rule: addToFlatList_flat_members.induct)
  case (1 c path0)
  then show ?case by (auto simp add: split_def)
next
  case (2 path)
  then show ?case by simp
next
  case (3 n d rest path)
  then show ?case by (auto simp add: append_e_def)
next
  case (4 n c rest path)
  then show ?case by (auto simp add: append_e_def split_def Let_def comp_def)
qed

lemma flatten_root_flat_of: "wf_entries T \<Longrightarrow> flatten_root T = Inr (flat_of T)"
proof (induction T rule: flat_of.induct)
  case 1
  then show ?case by simp
next
  case (2 n d rest)
  then show ?case by (simp add: append_e_def)
next
  case (3 n c rest)
  then show ?case
    using flat_members_flat_of(1) [of c n] by (simp add: append_e_def)
qed

lemma paths_of_flat_of: "map (\<lambda>(p, f). (p, file_data f)) (flat_of T) = paths_of_list T"
proof (induction T rule: flat_of.induct)
  case 1
  show ?case by simp
next
  case (2 n d rest)
  then show ?case by simp
next
  case (3 n c rest)
  have "map (\<lambda>(p, d). (n @ [0x2F] @ p, d)) (paths_of_list c)
        = map (\<lambda>(p, f). (p, file_data f)) (map (\<lambda>(p, f). (n @ [0x2F] @ p, f)) (flat_of c))"
    unfolding 3(1) [symmetric] by (simp add: split_def comp_def)
  with 3(2) show ?case by simp
qed

lemma wf_name_append [simp]: "wf_name (a @ b) \<longleftrightarrow> wf_name a \<and> wf_name b"
  by (simp add: wf_name_def)

lemma wf_name_slash [simp]: "wf_name [0x2F]"
  by (simp add: wf_name_def encodable_char_def)

lemma wf_flat_of: "wf_entries T \<Longrightarrow> (p, f) \<in> set (flat_of T) \<Longrightarrow> wf_name p"
  by (induction T arbitrary: p f rule: flat_of.induct)
     (auto simp add: wf_name_def encodable_char_def)

lemma str_split_not_Nil [simp]: "str_split sep s \<noteq> []"
  by (induction s) simp_all

lemma str_join_Cons: "ps \<noteq> [] \<Longrightarrow> str_join sep (p # ps) = p @ sep @ str_join sep ps"
  by (cases ps) simp_all

lemma str_join_split: "str_join [sep] (str_split sep s) = s"
proof (induction s)
  case Nil
  show ?case by simp
next
  case (Cons c s)
  obtain x xs where x: "str_split sep s = x # xs"
    by (cases "str_split sep s") simp_all
  show ?case
  proof (cases "c = sep")
    case True
    then show ?thesis using Cons by (simp add: str_join_Cons)
  next
    case False
    then show ?thesis using Cons x by (cases xs) simp_all
  qed
qed

lemma find_folder_is_folder:
  "find_folder nm cur = Some f \<Longrightarrow> isFolder f \<and> name f = nm"
  by (induction cur) (auto simp add: find_folder_def split: if_splits)

lemma find_folder_Some:
  "find_folder nm cur = Some f \<Longrightarrow> f = Folder nm (folder_contents f)"
  using find_folder_is_folder [of nm cur f] by (cases f) simp_all

lemma update_folder_paths:
  "find_folder nm cur = Some f \<Longrightarrow>
     mset (paths_of_list (update_folder nm c cur)) + mset (paths_of f)
       = mset (paths_of_list cur) + mset (paths_of (Folder nm c))"
proof (induction cur)
  case Nil
  then show ?case by (simp add: find_folder_def)
next
  case (Cons x cur)
  show ?case
  proof (cases "isFolder x \<and> name x = nm")
    case True
    with Cons.prems have "f = x" by (simp add: find_folder_def)
    with True show ?thesis by simp
  next
    case False
    with Cons.prems have "find_folder nm cur = Some f" by (auto simp add: find_folder_def)
    from Cons.IH [OF this] False show ?thesis by (auto simp add: ac_simps)
  qed
qed

lemma insert_file_paths:
  "segs \<noteq> [] \<Longrightarrow>
     mset (paths_of_list (insert_file segs d cur))
       = mset (paths_of_list cur) + {#(str_join [0x2F] segs, d)#}"
proof (induction segs d cur rule: insert_file.induct)
  case (1 fileData cur)
  then show ?case by simp
next
  case (2 n fileData cur)
  have "paths_of_list (cur @ [File n fileData]) = paths_of_list cur @ [(n, fileData)]"
    by (induction cur) simp_all
  then show ?case by simp
next
  case (3 folderName v va fileData cur)
  let ?rest = "v # va"
  let ?p = "(str_join [0x2F] (folderName # ?rest), fileData)"
  have j: "str_join [0x2F] (folderName # ?rest) = folderName @ [0x2F] @ str_join [0x2F] ?rest"
    by simp
  show ?case
  proof (cases "find_folder folderName cur")
    case None
    have a: "paths_of_list (cur @ [x]) = paths_of_list cur @ paths_of x" for x
      by (induction cur) simp_all
    from 3(1) [OF None] have
      "mset (paths_of_list (insert_file ?rest fileData [])) = {#(str_join [0x2F] ?rest, fileData)#}"
      by simp
    then have "mset (paths_of (Folder folderName (insert_file ?rest fileData []))) = {#?p#}"
      by (simp only: paths_of.simps mset_map j) simp
    with None show ?thesis by (simp add: a del: str_join.simps)
  next
    case (Some f)
    from 3(2) [OF Some] have
      i: "mset (paths_of_list (insert_file ?rest fileData (folder_contents f)))
         = mset (paths_of_list (folder_contents f)) + {#(str_join [0x2F] ?rest, fileData)#}"
      by simp
    have f: "f = Folder folderName (folder_contents f)" using Some by (rule find_folder_Some)
    have "mset (paths_of (Folder folderName (insert_file ?rest fileData (folder_contents f))))
          = mset (paths_of (Folder folderName (folder_contents f))) + {#?p#}"
      by (simp only: paths_of.simps mset_map i j) simp
    then have "mset (paths_of (Folder folderName (insert_file ?rest fileData (folder_contents f))))
          = mset (paths_of f) + {#?p#}"
      using f by simp
    with update_folder_paths [OF Some, of "insert_file ?rest fileData (folder_contents f)"]
    have "mset (paths_of_list (update_folder folderName
              (insert_file ?rest fileData (folder_contents f)) cur)) + mset (paths_of f)
          = mset (paths_of_list cur) + {#?p#} + mset (paths_of f)"
      by (simp add: ac_simps)
    then show ?thesis using Some by (simp del: str_join.simps)
  qed
qed


subsection \<open>The name table and the data table\<close>

lemma wf_name_encodable: "wf_name s \<Longrightarrow> (\<forall>c \<in> set s. encodable_char c) \<and> 0 \<notin> set s"
  by (auto simp add: wf_name_def list_all_iff)

lemma names_loop_structure:
  assumes "names_loop fl tbl = Inr (offs, t)" and "4 dvd length tbl"
  shows "(\<exists>suffix. t = tbl @ suffix)
     \<and> list_all2 (\<lambda>x off. 4 dvd off \<and> (\<exists>enc rest. utf8_encode (fst x) = Inr enc
                                      \<and> drop off t = enc @ 0 # rest)) fl offs"
  using assms
proof (induction fl arbitrary: tbl offs)
  case Nil
  then show ?case by simp
next
  case (Cons x fl)
  from Cons.prems(1) obtain enc offs' where
    enc: "utf8_encode (fst x) = Inr enc"
    and rec: "names_loop fl ((tbl @ enc) @ replicate (4 - length (tbl @ enc) mod 4) 0) = Inr (offs', t)"
    and offs: "offs = length tbl # offs'"
    by (auto simp add: Let_def split: sum.splits prod.splits)
  define k where "k = 4 - length (tbl @ enc) mod 4"
  have k: "1 \<le> k" by (simp add: k_def)
  have "4 dvd length ((tbl @ enc) @ replicate k 0)"
    unfolding k_def by (simp add: dvd_eq_mod_eq_0) presburger
  from Cons.IH [OF rec [folded k_def] this] obtain suffix where
    t: "t = ((tbl @ enc) @ replicate k 0) @ suffix"
    and l: "list_all2 (\<lambda>x off. 4 dvd off \<and> (\<exists>enc rest. utf8_encode (fst x) = Inr enc
                                      \<and> drop off t = enc @ 0 # rest)) fl offs'"
    by blast
  have "replicate k (0::byte) = 0 # replicate (k - 1) 0"
    using k by (cases k) simp_all
  then have "drop (length tbl) t = enc @ 0 # (replicate (k - 1) 0 @ suffix)"
    by (simp add: t)
  with enc Cons.prems(2) have first: "4 dvd length tbl
      \<and> (\<exists>enc rest. utf8_encode (fst x) = Inr enc \<and> drop (length tbl) t = enc @ 0 # rest)"
    by blast
  have "\<exists>s. t = tbl @ s" using t by simp
  then show ?case unfolding offs using first l by simp
qed

lemma names_loop_exists:
  "\<forall>x \<in> set fl. wf_name (fst x) \<Longrightarrow> \<exists>offs t. names_loop fl tbl = Inr (offs, t)"
proof (induction fl arbitrary: tbl)
  case Nil
  show ?case by simp
next
  case (Cons x fl)
  then have "\<forall>c \<in> set (fst x). encodable_char c"
    using wf_name_encodable [of "fst x"] by simp
  from utf8_roundtrip [OF this] obtain enc where e: "utf8_encode (fst x) = Inr enc" by blast
  from Cons obtain offs t where
    "names_loop fl ((tbl @ enc) @ replicate (4 - length (tbl @ enc) mod 4) 0) = Inr (offs, t)"
    by fastforce
  with e show ?case by (simp add: Let_def)
qed

lemma data_loop_structure:
  assumes "data_loop al files idx tbl = (doffs, t)"
  shows "(\<exists>suffix. t = tbl @ suffix)
     \<and> list_all2 (\<lambda>f off. slice t off (off + length (file_data f)) = file_data f) files doffs"
  using assms
proof (induction files arbitrary: idx tbl doffs)
  case Nil
  then show ?case by simp
next
  case (Cons f files)
  define t1 where "t1 = (if idx > 0
                then tbl @ replicate (nat (round_up (int (length tbl)) al - int (length tbl))) 0
                else tbl)"
  from Cons.prems obtain offs' where
    rec: "data_loop al files (idx + 1) (t1 @ file_data f) = (offs', t)"
    and offs: "doffs = length t1 # offs'"
    by (auto simp add: Let_def t1_def split: prod.splits)
  from Cons.IH [OF rec] obtain suffix where
    t: "t = (t1 @ file_data f) @ suffix"
    and l: "list_all2 (\<lambda>f off. slice t off (off + length (file_data f)) = file_data f) files offs'"
    by blast
  have "slice t (length t1) (length t1 + length (file_data f)) = file_data f"
    unfolding t by (simp add: slice_def)
  moreover have "\<exists>s. t = tbl @ s"
    unfolding t t1_def by auto
  ultimately show ?case using l offs by simp
qed


subsection \<open>The encoder returns\<close>

lemma choose_dataStartOffset_bounds:
  "0x28 + 0x10 * int n + int len \<le> choose_dataStartOffset n len arg"
  "16 dvd choose_dataStartOffset n len arg"
proof -
  define mn where "mn = spec_round_up (0x20 + 0x10 * int n + 0x08 + int len) 0x10"
  define lg where "lg = max mn (spec_round_up arg 0x10)"
  have m: "16 dvd mn" "0x28 + 0x10 * int n + int len \<le> mn"
    using spec_round_up_least [of 16 "0x20 + 0x10 * int n + 0x08 + int len"]
    by (simp_all add: mn_def)
  have a: "16 dvd spec_round_up arg 0x10"
    using spec_round_up_least [of 16 arg] by simp
  have l: "16 dvd lg" "mn \<le> lg" using m a by (auto simp add: lg_def max_def)
  have r: "512 dvd spec_round_up lg 0x200" "lg \<le> spec_round_up lg 0x200"
    using spec_round_up_least [of 512 lg] by simp_all
  have r16: "16 dvd spec_round_up lg 0x200"
    using dvd_trans [OF _ r(1), of 16] by simp
  have d: "choose_dataStartOffset n len arg = (if lg = mn then spec_round_up lg 0x200 else lg)"
    by (simp add: choose_dataStartOffset_eq_spec spec_dataStartOffset_def Let_def mn_def lg_def)
  show "0x28 + 0x10 * int n + int len \<le> choose_dataStartOffset n len arg"
    unfolding d using m l r by auto
  show "16 dvd choose_dataStartOffset n len arg"
    unfolding d using l r16 by auto
qed

lemma int_has_bit: "(0::int) < x \<Longrightarrow> \<exists>j. bit x j"
proof (rule ccontr)
  assume "0 < x" and "\<nexists>j. bit x j"
  then have "x = 0" by (intro bit_eqI) simp
  with \<open>0 < x\<close> show False by simp
qed

lemma get_alignment_returns:
  assumes "16 \<le> d"
  shows "\<exists>al. get_alignment d = Some al \<and> al \<noteq> 0"
proof (cases "d AND 0xF0 = 0")
  case False
  then show ?thesis by (simp add: get_alignment_low)
next
  case True
  have "0 < drop_bit 4 d" using assms by (simp add: drop_bit_eq_div)
  then obtain j where "bit (drop_bit 4 d) j" using int_has_bit by blast
  then have j: "bit d (4 + j)" by (simp add: bit_drop_bit_eq add.commute)
  have "j \<noteq> 0"
  proof
    assume "j = 0"
    with j have "bit (d AND 0xF0) 4" by (simp add: bit_and_iff)
    with True show False by simp
  qed
  then have "4 + 1 \<le> 4 + j" by simp
  from alignment_loop_returns [OF j this] True show ?thesis
    by (simp add: get_alignment_def)
qed

lemma pack_I_Inl: "pack_I e v = Inl x \<Longrightarrow> x = StructError"
  by (simp add: pack_I_def split: if_splits)

lemma pack_H_Inl: "pack_H e v = Inl x \<Longrightarrow> x = StructError"
  by (simp add: pack_H_def split: if_splits)

lemma bind_e_Inl: "bind_e r f = Inl x \<longleftrightarrow> r = Inl x \<or> (\<exists>y. r = Inr y \<and> f y = Inl x)"
  by (cases r) (simp_all add: bind_e_def)

lemma map_e_Inl: "map_e f xs = Inl x \<Longrightarrow> \<exists>y \<in> set xs. f y = Inl x"
  by (induction xs) (auto split: sum.splits)

lemma sfat_node_Inl: "sfat_node e m y = Inl x \<Longrightarrow> x = StructError"
  by (cases y) (auto simp add: sfat_node_def bind_e_Inl filenameHash_Inr dest: pack_I_Inl)

lemma assemble_Inl:
  "assemble e m fl offs names d doffs dtab = Inl x \<Longrightarrow> x = StructError"
  by (auto simp add: assemble_def sarcHead_def sfatHead_def sfat_nodes_def bind_e_Inl Let_def
      dest: pack_I_Inl pack_H_Inl sfat_node_Inl map_e_Inl)

lemma save_returns:
  assumes "wf_entries (contents a)"
  shows "\<exists>r. save a arg = Some r \<and> (\<forall>x. r = Inl x \<longrightarrow> x = StructError)"
proof -
  define fl where "fl = sort_key (\<lambda>x. spec_hash (fst x) (hashMultiplier a)) (flat_of (contents a))"
  have f: "flatten_root (contents a) = Inr (flat_of (contents a))"
    using assms by (rule flatten_root_flat_of)
  have "\<forall>x \<in> set fl. wf_name (fst x)"
    using wf_flat_of [OF assms] by (auto simp add: fl_def)
  then obtain offs names where n: "names_loop fl [] = Inr (offs, names)"
    using names_loop_exists by blast
  define d where "d = choose_dataStartOffset (length fl) (length names) arg"
  have "16 \<le> d"
    using choose_dataStartOffset_bounds(1) [of "length fl" "length names" arg]
    by (simp add: d_def)
  then obtain al where al: "get_alignment d = Some al"
    using get_alignment_returns by blast
  obtain doffs dtab where dl: "data_loop al (map snd fl) 0 [] = (doffs, dtab)"
    by (cases "data_loop al (map snd fl) 0 []")
  have "save a arg = Some (assemble (endianness a) (hashMultiplier a) fl offs names d doffs dtab)"
    by (simp add: save_def f sort_flatList_Inr fl_def [symmetric] n d_def [symmetric] al dl)
  then show ?thesis
    using assemble_Inl by (cases "assemble (endianness a) (hashMultiplier a) fl offs names d doffs dtab") auto
qed


subsection \<open>Payload alignment and total length\<close>

lemma alignment_loop_form:
  "bit d j \<Longrightarrow> 4 + k \<le> j \<Longrightarrow>
   \<exists>al w. alignment_loop d 0 k = Some al \<and> al \<noteq> 0 \<and> al = d AND push_bit w 0xF0"
proof (induction "j - (4 + k)" arbitrary: k)
  case 0
  then have "j = 4 + k" by simp
  with \<open>bit d j\<close> have "bit (d AND push_bit k 0xF0) j"
    by (simp add: bit_and_iff bit_push_bit_iff)
  then have nz: "d AND push_bit k 0xF0 \<noteq> 0" by auto
  have "alignment_loop d 0 k = Some (d AND push_bit k 0xF0)"
    by (subst alignment_loop.simps) (simp add: alignment_loop_nonzero nz)
  with nz show ?case by blast
next
  case (Suc n)
  show ?case
  proof (cases "d AND push_bit k 0xF0 = 0")
    case False
    have "alignment_loop d 0 k = Some (d AND push_bit k 0xF0)"
      by (subst alignment_loop.simps) (simp add: alignment_loop_nonzero False)
    with False show ?thesis by blast
  next
    case True
    have "j \<noteq> 4 + k"
    proof
      assume "j = 4 + k"
      with \<open>bit d j\<close> have "bit (d AND push_bit k 0xF0) j"
        by (simp add: bit_and_iff bit_push_bit_iff)
      with True show False by simp
    qed
    with Suc.prems have "4 + (k + 1) \<le> j" by simp
    moreover from Suc.hyps have "n = j - (4 + (k + 1))" by simp
    ultimately obtain al w where "alignment_loop d 0 (k + 1) = Some al" "al \<noteq> 0"
      "al = d AND push_bit w 0xF0"
      using Suc.hyps(1) [of "k + 1"] Suc.prems(1) by blast
    moreover have "alignment_loop d 0 k = alignment_loop d 0 (k + 1)"
      by (subst alignment_loop.simps) (simp add: True)
    ultimately show ?thesis by auto
  qed
qed

lemma get_alignment_form:
  assumes "16 \<le> d" and "get_alignment d = Some al"
  shows "al \<noteq> 0 \<and> (\<exists>w. al = d AND push_bit w 0xF0)"
proof (cases "d AND 0xF0 = 0")
  case False
  then have "get_alignment d = Some (d AND push_bit 0 0xF0)" by (simp add: get_alignment_low)
  with assms(2) False show ?thesis by (metis option.inject push_bit_0_id id_apply)
next
  case True
  have "0 < drop_bit 4 d" using assms by (simp add: drop_bit_eq_div)
  then obtain j where "bit (drop_bit 4 d) j" using int_has_bit by blast
  then have j: "bit d (4 + j)" by (simp add: bit_drop_bit_eq add.commute)
  have "j \<noteq> 0"
  proof
    assume "j = 0"
    with j have "bit (d AND 0xF0) 4" by (simp add: bit_and_iff)
    with True show False by simp
  qed
  then have "4 + 1 \<le> 4 + j" by simp
  from alignment_loop_form [OF j this] True assms(2) show ?thesis
    by (auto simp add: get_alignment_def)
qed

lemma and_pow2_dvd:
  fixes d :: int
  assumes "2 ^ k dvd d"
  shows "2 ^ k dvd (d AND w)"
proof -
  have "take_bit k d = 0" using assms by (simp add: take_bit_eq_0_iff)
  then have "take_bit k (d AND w) = 0" by (simp add: take_bit_and)
  then show ?thesis by (simp only: take_bit_eq_0_iff)
qed

lemma round_up_ge: "0 < al \<Longrightarrow> x \<le> round_up x al"
proof -
  assume "0 < al"
  then have "0 \<le> al - 1" by simp
  then have "x - 1 \<le> (x - 1) OR (al - 1)" by (rule or_greater_eq)
  then show ?thesis by (simp add: round_up_def)
qed

lemma round_up_dvd:
  assumes "0 < al" and "2 ^ k dvd al"
  shows "2 ^ k dvd round_up x al"
proof -
  have "take_bit k al = 0" using assms(2) by (simp add: take_bit_eq_0_iff)
  have "take_bit k (al - 1) = mask k"
  proof -
    from assms(2) obtain c where c: "al = 2 ^ k * c" ..
    have "(al - 1) mod 2 ^ k = (2 ^ k * c + (2 ^ k - 1) - 2 ^ k) mod 2 ^ k"
      by (simp add: c)
    also have "\<dots> = (2 ^ k - 1) mod 2 ^ k"
      by (metis (no_types, opaque_lifting) add.commute add_diff_cancel_left' diff_add_eq
          mod_mult_self4 mod_diff_right_eq mod_self diff_zero mod_mod_trivial)
    also have "\<dots> = 2 ^ k - 1"
      by (simp add: zmod_minus1 flip: diff_eq_eq)
    finally show ?thesis by (simp add: take_bit_eq_mod mask_eq_exp_minus_1)
  qed
  then have "take_bit k ((x - 1) OR (al - 1)) = mask k"
    by (simp add: take_bit_or) (auto simp add: bit_eq_iff bit_or_iff bit_take_bit_iff bit_mask_iff)
  then have "((x - 1) OR (al - 1)) mod 2 ^ k = 2 ^ k - 1"
    by (simp add: take_bit_eq_mod mask_eq_exp_minus_1)
  then have "(((x - 1) OR (al - 1)) + 1) mod 2 ^ k = 0"
    by (metis diff_add_cancel mod_add_left_eq mod_self)
  then show ?thesis by (simp add: round_up_def dvd_eq_mod_eq_0)
qed

lemma spec_alignment_pow2:
  "d \<noteq> 0 \<Longrightarrow> \<exists>k. spec_alignment d = 2 ^ k \<and> 2 ^ k dvd d \<and> \<not> 2 ^ Suc k dvd d"
proof (induction d rule: spec_alignment.induct)
  case (1 d)
  show ?case
  proof (cases "odd d")
    case True
    then have "spec_alignment d = 2 ^ 0" using 1(2) by (simp add: spec_alignment.simps)
    with True show ?thesis by (metis dvd_refl One_nat_def power_0 power_one_right one_dvd)
  next
    case False
    then obtain c where c: "d = 2 * c" by (auto elim: evenE)
    with 1(2) have "c \<noteq> 0" by auto
    with 1(1) [OF 1(2) False] c obtain k where
      k: "spec_alignment c = 2 ^ k" "2 ^ k dvd c" "\<not> 2 ^ Suc k dvd c"
      by auto
    have "spec_alignment d = 2 ^ Suc k"
      using 1(2) False c k(1) by (subst spec_alignment.simps) simp
    moreover have "2 ^ Suc k dvd d" using k(2) c by simp
    moreover have "\<not> 2 ^ Suc (Suc k) dvd d"
    proof -
      have "(2::int) ^ Suc (Suc k) dvd 2 * c \<longleftrightarrow> 2 ^ Suc k dvd c"
        using dvd_mult_cancel_left [of "2::int" "2 ^ Suc k" c] by simp
      with k(3) c show ?thesis by simp
    qed
    ultimately show ?thesis by blast
  qed
qed

lemma data_loop_offsets:
  assumes "0 < al" and "data_loop al files idx tbl = (doffs, t)" and "0 < idx"
  shows "\<forall>off \<in> set doffs. \<exists>x. int off = round_up x al"
  using assms(2,3)
proof (induction files arbitrary: idx tbl doffs)
  case Nil
  then show ?case by simp
next
  case (Cons f files)
  define t1 where
    "t1 = tbl @ replicate (nat (round_up (int (length tbl)) al - int (length tbl))) 0"
  from Cons.prems obtain offs' where
    rec: "data_loop al files (idx + 1) (t1 @ file_data f) = (offs', t)"
    and offs: "doffs = length t1 # offs'"
    by (auto simp add: Let_def t1_def split: prod.splits)
  have "int (length t1) = round_up (int (length tbl)) al"
    using round_up_ge [OF assms(1), of "int (length tbl)"] by (simp add: t1_def)
  moreover have "\<forall>off \<in> set offs'. \<exists>x. int off = round_up x al"
    using Cons.IH [OF rec] by simp
  ultimately show ?case unfolding offs by auto
qed

lemma data_loop_offsets_from_0:
  assumes "0 < al" and "data_loop al files 0 [] = (doffs, t)" and "0 < i" and "i < length doffs"
  shows "\<exists>x. int (doffs ! i) = round_up x al"
proof (cases files)
  case Nil
  with assms show ?thesis by simp
next
  case (Cons f rest)
  with assms(2) obtain offs' where
    rec: "data_loop al rest 1 (file_data f) = (offs', t)" and offs: "doffs = 0 # offs'"
    by (auto simp add: Let_def split: prod.splits)
  from assms(3,4) offs obtain j where j: "i = Suc j" "j < length offs'"
    by (cases i) auto
  from data_loop_offsets [OF assms(1) rec] j show ?thesis
    by (simp add: offs)
qed

lemma spec_alignment_dvd:
  assumes "d \<noteq> 0" and "\<And>k. 2 ^ k dvd d \<Longrightarrow> 2 ^ k dvd st"
  shows "spec_alignment d dvd st"
  using spec_alignment_pow2 [OF assms(1)] assms(2) by auto

lemma spec_alignment_ge_16:
  assumes "d \<noteq> 0" and "16 dvd d"
  shows "16 \<le> spec_alignment d"
proof -
  from spec_alignment_pow2 [OF assms(1)] obtain k where
    k: "spec_alignment d = 2 ^ k" "\<not> 2 ^ Suc k dvd d" by blast
  have "4 \<le> k"
  proof (rule ccontr)
    assume "\<not> 4 \<le> k"
    then have "Suc k \<le> 4" by simp
    then have "(2::int) ^ Suc k dvd 2 ^ 4" by (rule le_imp_power_dvd)
    with assms(2) have "2 ^ Suc k dvd d" by (simp add: dvd_trans)
    with k(2) show False by simp
  qed
  then have "(2::int) ^ 4 \<le> 2 ^ k" by (intro power_increasing) simp_all
  with k(1) show ?thesis by simp
qed

lemma data_loop_offsets_le:
  assumes "data_loop al files idx tbl = (doffs, t)"
  shows "length tbl \<le> length t \<and> (\<forall>off \<in> set doffs. off \<le> length t)"
  using assms
proof (induction files arbitrary: idx tbl doffs)
  case Nil
  then show ?case by simp
next
  case (Cons f files)
  define t1 where "t1 = (if idx > 0
                then tbl @ replicate (nat (round_up (int (length tbl)) al - int (length tbl))) 0
                else tbl)"
  from Cons.prems obtain offs' where
    rec: "data_loop al files (idx + 1) (t1 @ file_data f) = (offs', t)"
    and offs: "doffs = length t1 # offs'"
    by (auto simp add: Let_def t1_def split: prod.splits)
  from Cons.IH [OF rec] have "length (t1 @ file_data f) \<le> length t"
    "\<forall>off \<in> set offs'. off \<le> length t" by simp_all
  moreover have "length tbl \<le> length t1" by (simp add: t1_def)
  ultimately show ?case unfolding offs by auto
qed

lemma save_layout_lengths:
  assumes dl: "0x28 + 0x10 * int (length fl) + int (length names) \<le> d"
    and lo: "length offs = length fl" "length doffs = length fl"
  shows "drop (nat d) (layout e m fl offs doffs names d dtab) = dtab"
    and "int (length (layout e m fl offs doffs names d dtab)) = d + int (length dtab)"
proof -
  let ?nodes = "map (node_bytes e m) (zip fl (zip offs doffs))"
  define pre where "pre = header_bytes e (d + int (length dtab)) d (length fl) m
           @ concat ?nodes @ sfntHead e @ names
           @ replicate (nat (d - (0x28 + 0x10 * int (length fl) + int (length names)))) 0"
  have ln: "length (concat ?nodes) = 16 * length fl"
    using lo by (subst length_concat_blocks [where k = 16]) auto
  have lpre: "length pre = nat d"
    using dl by (simp add: pre_def ln sfntHead_def magic_SFNT_def)
  have b: "layout e m fl offs doffs names d dtab = pre @ dtab"
    by (simp add: layout_def pre_def)
  show "drop (nat d) (layout e m fl offs doffs names d dtab) = dtab"
    unfolding b using lpre by simp
  show "int (length (layout e m fl offs doffs names d dtab)) = d + int (length dtab)"
    unfolding b using lpre dl by simp
qed

lemma layout_node_dataStart:
  assumes lo: "length offs = length fl" "length doffs = length fl" and i: "i < length fl"
    and r: "int (doffs ! i) < 2 ^ 32"
  shows "node_dataStart e (layout e m fl offs doffs names d dtab) i = Inr (int (doffs ! i))"
proof -
  let ?nodes = "map (node_bytes e m) (zip fl (zip offs doffs))"
  have li: "i < length ?nodes" using i lo by simp
  have "slice (layout e m fl offs doffs names d dtab) (32 + 16 * i + 8) (32 + 16 * i + 12)
        = slice (?nodes ! i) 8 12"
    unfolding layout_def by (rule slice_blocks) (use li in auto)
  also have "?nodes ! i = node_bytes e m (fl ! i, offs ! i, doffs ! i)"
    using i lo by simp
  also have "slice \<dots> 8 12 = order_bytes e (le_bytes4 (int (doffs ! i)))"
    by (cases "fl ! i") (simp add: node_bytes_def slice_def)
  finally show ?thesis
    unfolding node_dataStart_def using r
    by (simp add: unpack_I_le_bytes4)
qed

text \<open>
  Claim C9. In every buffer the encoder returns, the start offset of each payload
  after the first, as its index record gives it relative to the data start offset, is
  a multiple of the alignment derived from that offset: of the largest power of two
  dividing the offset, which is at least 0x10, and so of every power of two dividing
  it. The bytes from the data start offset on are the padded payload table the
  encoder built, the length of the buffer is the data start offset plus the length of
  that table, and the total length field of the header holds that length.
\<close>

theorem save_payload_alignment:
  assumes "save a arg = Some (Inr buf)"
  shows "\<exists>d n dtab.
           header_dataStartOffset (endianness a) buf = Inr d
         \<and> header_nodeCount (endianness a) buf = Inr (int n)
         \<and> 0x10 \<le> spec_alignment d
         \<and> (\<forall>i. 0 < i \<and> i < n \<longrightarrow>
               (\<exists>st. node_dataStart (endianness a) buf i = Inr st
                     \<and> spec_alignment d dvd st
                     \<and> (\<forall>k. 2 ^ k dvd d \<longrightarrow> 2 ^ k dvd st)))
         \<and> (\<exists>fl0 fl offs names al doffs.
               flatten_root (contents a) = Inr fl0
               \<and> sort_flatList (endianness a) (hashMultiplier a) fl0 = Inr fl
               \<and> names_loop fl [] = Inr (offs, names)
               \<and> get_alignment d = Some al
               \<and> data_loop al (map snd fl) 0 [] = (doffs, dtab))
         \<and> dtab = drop (nat d) buf
         \<and> int (length buf) = d + int (length dtab)
         \<and> header_totalLength (endianness a) buf = Inr (int (length buf))"
proof -
  define e where "e = endianness a"
  define m where "m = hashMultiplier a"
  from assms obtain fl0 fl offs names d al doffs dtab where
    p: "flatten_root (contents a) = Inr fl0"
       "fl = sort_key (\<lambda>x. spec_hash (fst x) m) fl0"
       "names_loop fl [] = Inr (offs, names)"
       "d = choose_dataStartOffset (length fl) (length names) arg"
       "get_alignment d = Some al"
       "data_loop al (map snd fl) 0 [] = (doffs, dtab)"
    and lo: "length offs = length fl" "length doffs = length fl"
    and r: "0 \<le> d" "d + int (length dtab) < 2 ^ 32" "length fl < 2 ^ 16"
    and b: "buf = header_bytes e (d + int (length dtab)) d (length fl) m
           @ concat (map (node_bytes e m) (zip fl (zip offs doffs)))
           @ (sfntHead e @ names
           @ replicate (nat (d - (0x28 + 0x10 * int (length fl) + int (length names)))) 0
           @ dtab)"
    unfolding e_def m_def by (rule save_layout)
  have bl: "buf = layout e m fl offs doffs names d dtab"
    unfolding b layout_def ..
  have dl: "0x28 + 0x10 * int (length fl) + int (length names) \<le> d" and d16: "16 dvd d"
    unfolding p(4) by (rule choose_dataStartOffset_bounds)+
  have dpos: "16 \<le> d" "d \<noteq> 0" using dl by simp_all
  have dt: "dtab = drop (nat d) buf"
    unfolding bl using save_layout_lengths(1) [OF dl lo] by simp
  have lb: "int (length buf) = d + int (length dtab)"
    unfolding bl using save_layout_lengths(2) [OF dl lo] .
  have hd: "header_dataStartOffset e buf = Inr d"
    unfolding header_dataStartOffset_def b header_fields using r
    by (simp add: unpack_I_le_bytes4)
  have ht: "header_totalLength e buf = Inr (d + int (length dtab))"
    unfolding header_totalLength_def b header_fields using r
    by (simp add: unpack_I_le_bytes4)
  have cnt: "header_nodeCount e buf = Inr (int (length fl))"
    unfolding header_nodeCount_def b header_fields using r
    by (simp add: unpack_H_le_bytes2)
  from get_alignment_form [OF dpos(1) p(5)] obtain w where
    al: "al \<noteq> 0" "al = d AND push_bit w 0xF0" by blast
  have "0 \<le> al" unfolding al(2) using r(1) by simp
  with al(1) have alpos: "0 < al" by simp
  have aldvd: "2 ^ k dvd al" if "2 ^ k dvd d" for k
    unfolding al(2) using that by (rule and_pow2_dvd)
  have st: "\<exists>st. node_dataStart e buf i = Inr st \<and> spec_alignment d dvd st
               \<and> (\<forall>k. 2 ^ k dvd d \<longrightarrow> 2 ^ k dvd st)"
    if i: "0 < i" "i < length fl" for i
  proof -
    have "doffs ! i \<le> length dtab"
      using data_loop_offsets_le [OF p(6)] i(2) lo by simp
    then have rng: "int (doffs ! i) < 2 ^ 32" using r(1,2) by simp
    have v: "node_dataStart e buf i = Inr (int (doffs ! i))"
      unfolding bl using lo i(2) rng by (rule layout_node_dataStart)
    from data_loop_offsets_from_0 [OF alpos p(6) i(1)] i(2) lo obtain x where
      x: "int (doffs ! i) = round_up x al" by auto
    have dv: "2 ^ k dvd int (doffs ! i)" if "2 ^ k dvd d" for k
      unfolding x using alpos aldvd [OF that] by (rule round_up_dvd)
    then have "spec_alignment d dvd int (doffs ! i)"
      using spec_alignment_dvd [OF dpos(2)] by blast
    with v dv show ?thesis by blast
  qed
  have sa: "0x10 \<le> spec_alignment d" using dpos(2) d16 by (rule spec_alignment_ge_16)
  have pipe: "\<exists>fl0 fl offs names al doffs.
               flatten_root (contents a) = Inr fl0
               \<and> sort_flatList e m fl0 = Inr fl
               \<and> names_loop fl [] = Inr (offs, names)
               \<and> get_alignment d = Some al
               \<and> data_loop al (map snd fl) 0 [] = (doffs, dtab)"
    using p(1,3,5,6) sort_flatList_Inr [of e m fl0] unfolding p(2) by blast
  have all: "\<forall>i. 0 < i \<and> i < length fl \<longrightarrow>
               (\<exists>st. node_dataStart e buf i = Inr st
                     \<and> spec_alignment d dvd st
                     \<and> (\<forall>k. 2 ^ k dvd d \<longrightarrow> 2 ^ k dvd st))"
    using st by blast
  have ht': "header_totalLength e buf = Inr (int (length buf))"
    using ht lb by simp
  show ?thesis
    unfolding e_def [symmetric] m_def [symmetric]
    apply (rule exI [of _ d], rule exI [of _ "length fl"], rule exI [of _ dtab])
    apply (intro conjI)
           apply (rule hd)
          apply (rule cnt)
         apply (rule sa)
        apply (rule all)
       apply (rule pipe)
      apply (rule dt)
     apply (rule lb)
    apply (rule ht')
    done
qed

theorem save_payload_alignment_witness:
  "save example_archive 0x70 = Some (Inr example_buffer)
   \<and> header_dataStartOffset BigEndian example_buffer = Inr 0x70
   \<and> spec_alignment 0x70 = 0x10
   \<and> node_dataStart BigEndian example_buffer 1 = Inr 0x80
   \<and> header_totalLength BigEndian example_buffer = Inr 241
   \<and> length example_buffer = 241
   \<and> (\<exists>d n dtab.
           header_dataStartOffset (endianness example_archive) example_buffer = Inr d
         \<and> header_nodeCount (endianness example_archive) example_buffer = Inr (int n)
         \<and> 0x10 \<le> spec_alignment d
         \<and> (\<forall>i. 0 < i \<and> i < n \<longrightarrow>
               (\<exists>st. node_dataStart (endianness example_archive) example_buffer i = Inr st
                     \<and> spec_alignment d dvd st
                     \<and> (\<forall>k. 2 ^ k dvd d \<longrightarrow> 2 ^ k dvd st)))
         \<and> dtab = drop (nat d) example_buffer
         \<and> int (length example_buffer) = d + int (length dtab)
         \<and> header_totalLength (endianness example_archive) example_buffer
             = Inr (int (length example_buffer)))"
proof -
  have 1: "header_dataStartOffset BigEndian example_buffer = Inr 0x70"
    by code_simp
  have 2: "spec_alignment 0x70 = 0x10"
    by code_simp
  have 3: "node_dataStart BigEndian example_buffer 1 = Inr 0x80"
    by code_simp
  have 4: "header_totalLength BigEndian example_buffer = Inr 241"
    by code_simp
  have 5: "length example_buffer = 241"
    by (simp add: example_buffer_def)
  from save_payload_alignment [OF save_example] have
    "\<exists>d n dtab.
           header_dataStartOffset (endianness example_archive) example_buffer = Inr d
         \<and> header_nodeCount (endianness example_archive) example_buffer = Inr (int n)
         \<and> 0x10 \<le> spec_alignment d
         \<and> (\<forall>i. 0 < i \<and> i < n \<longrightarrow>
               (\<exists>st. node_dataStart (endianness example_archive) example_buffer i = Inr st
                     \<and> spec_alignment d dvd st
                     \<and> (\<forall>k. 2 ^ k dvd d \<longrightarrow> 2 ^ k dvd st)))
         \<and> dtab = drop (nat d) example_buffer
         \<and> int (length example_buffer) = d + int (length dtab)
         \<and> header_totalLength (endianness example_archive) example_buffer
             = Inr (int (length example_buffer))"
    by blast
  with save_example 1 2 3 4 5 show ?thesis by blast
qed

subsection \<open>Reading an index record back\<close>

lemma or_flag: 
  assumes "0 \<le> q" "q < 2 ^ 24"
  shows "(q::int) OR 0x1000000 = q + 0x1000000"
proof -
  have q: "q = take_bit 24 q" using assms by (simp add: take_bit_int_eq_self)
  have "q + 2 ^ 24 = q OR 2 ^ 24"
  proof (rule disjunctive_add)
    fix n
    have "\<not> bit (take_bit 24 q) 24" by (simp add: bit_take_bit_iff)
    then have "\<not> bit q 24" using q by simp
    moreover have "bit ((2::int) ^ 24) n \<longleftrightarrow> n = 24"
      by (simp only: bit_exp_iff) simp
    ultimately show "\<not> bit q n \<or> \<not> bit ((2::int) ^ 24) n"
      by blast
  qed
  then show ?thesis by simp
qed

lemma le_value_low24:
  assumes "0 \<le> q" "q < 2 ^ 24"
  shows "le_value (take 3 (le_bytes4 (q OR 0x1000000)) @ [0]) = q"
proof -
  define X where "X = q + 16777216"
  have x: "q OR 0x1000000 = X" using assms by (simp add: or_flag X_def)
  have a: "X mod 256 = q mod 256"
    using mod_mult_self2 [of q 256 65536] by (simp add: X_def)
  have "X div 256 = q div 256 + 65536"
    using div_mult_self2 [of 256 q 65536] by (simp add: X_def)
  then have b: "X div 256 mod 256 = q div 256 mod 256"
    using mod_mult_self2 [of "q div 256" 256 256] by simp
  have "X div 65536 = q div 65536 + 256"
    using div_mult_self2 [of 65536 q 256] by (simp add: X_def)
  then have c: "X div 65536 mod 256 = q div 65536 mod 256"
    using mod_mult_self2 [of "q div 65536" 256 1] by simp
  have d: "q div 16777216 = 0" using assms by simp
  have "le_value (take 3 (le_bytes4 X) @ [0])
        = q mod 256 + 256 * (q div 256 mod 256 + 256 * (q div 65536 mod 256 + 256 * 0))"
    by (simp add: le_bytes4_def uint_byte_of_int a b c)
  also have "\<dots> = q"
    by (rule bytes4_sum [of q, unfolded d])
  finally show ?thesis unfolding x .
qed

lemma slice_sub:
  "b \<le> n \<Longrightarrow> slice xs (off + a) (off + b) = slice (slice xs off (off + n)) a b"
  by (simp add: slice_def drop_take add.commute min_def)

lemma name_offset_field:
  assumes "0 \<le> q" "q < 2 ^ 24"
  shows "unpack_I BigEndian ([0] @ slice (order_bytes BigEndian (le_bytes4 (q OR 0x1000000))) 1 4) = Inr q"
    "unpack_I LittleEndian (slice (order_bytes LittleEndian (le_bytes4 (q OR 0x1000000))) 0 3 @ [0]) = Inr q"
proof -
  have t: "take 3 (le_bytes4 X) @ [0] = [word_of_int X, word_of_int (X div 2 ^ 8), word_of_int (X div 2 ^ 16), 0]" for X
    by (simp add: le_bytes4_def)
  have v: "le_value [word_of_int X, word_of_int (X div 2 ^ 8), word_of_int (X div 2 ^ 16), 0] = q"
    if "X = q OR 0x1000000" for X
    using le_value_low24 [OF assms] unfolding t that .
  show "unpack_I BigEndian ([0] @ slice (order_bytes BigEndian (le_bytes4 (q OR 0x1000000))) 1 4) = Inr q"
    using v [OF refl] by (simp add: unpack_I_def order_bytes_def le_bytes4_def slice_def)
  show "unpack_I LittleEndian (slice (order_bytes LittleEndian (le_bytes4 (q OR 0x1000000))) 0 3 @ [0]) = Inr q"
    using v [OF refl] by (simp add: unpack_I_def order_bytes_def le_bytes4_def slice_def)
qed

lemma read_node_eq:
  assumes len: "off + 16 \<le> length data"
    and node: "slice data off (off + 16) = node_bytes e m ((p, f), no, doff)"
    and q: "int no div 4 < 2 ^ 24"
    and r: "int doff + int (length (file_data f)) < 2 ^ 32"
  shows "\<exists>flag. read_node e data off
           = Inr (flag, int no div 4, int doff, int (length (file_data f)))"
proof -
  let ?n = "node_bytes e m ((p, f), no, doff)"
  have s: "slice data (off + a) (off + b) = slice ?n a b" if "b \<le> 16" for a b
    using slice_sub [OF that, of data off a] node by simp
  have q0: "0 \<le> int no div 4" by simp
  have st: "unpack_I e (slice ?n 8 12) = Inr (int doff)"
    using r by (simp add: node_bytes_def slice_def unpack_I_le_bytes4)
  have en: "unpack_I e (slice ?n 12 16) = Inr (int doff + int (length (file_data f)))"
    using r by (simp add: node_bytes_def slice_def unpack_I_le_bytes4)
  have nb: "slice ?n 5 8 = slice (order_bytes e (le_bytes4 (int no div 4 OR 0x1000000))) 1 4"
    by (simp add: node_bytes_def slice_def)
  have nl: "slice ?n 4 7 = slice (order_bytes e (le_bytes4 (int no div 4 OR 0x1000000))) 0 3"
    by (simp add: node_bytes_def slice_def)
  have s58: "slice data (off + 5) (off + 5 + 3) = slice ?n 5 8"
    using s [of 8 5] by (simp add: add.assoc)
  have s47: "slice data (off + 4) (off + 4 + 3) = slice ?n 4 7"
    using s [of 7 4] by (simp add: add.assoc)
  have s812: "slice data (off + 8) (off + 0x0C) = slice ?n 8 12"
    using s [of 12 8] by simp
  have s1216: "slice data (off + 0x0C) (off + 0x10) = slice ?n 12 16"
    using s [of 16 12] by simp
  show ?thesis
  proof (cases e)
    case BigEndian
    have "unpack_I e ([0] @ slice data (off + 5) (off + 5 + 3)) = Inr (int no div 4)"
      unfolding s58 nb unfolding BigEndian using name_offset_field(1) [OF q0 q] .
    then show ?thesis
      using len BigEndian st en
      by (simp add: read_node_def Let_def s812 s1216 bind_e_def)
  next
    case LittleEndian
    have "unpack_I e (slice data (off + 4) (off + 4 + 3) @ [0]) = Inr (int no div 4)"
      unfolding s47 nl unfolding LittleEndian using name_offset_field(2) [OF q0 q] .
    then show ?thesis
      using len LittleEndian st en
      by (simp add: read_node_def Let_def s812 s1216 bind_e_def)
  qed
qed


subsection \<open>Decoding an encoded buffer\<close>

lemma layout_node_slice:
  assumes lo: "length offs = length fl" "length doffs = length fl" and i: "i < length fl"
  shows "slice (layout e m fl offs doffs names d dtab) (0x20 + 0x10 * i) (0x20 + 0x10 * i + 16)
         = node_bytes e m (fl ! i, offs ! i, doffs ! i)"
proof -
  let ?nodes = "map (node_bytes e m) (zip fl (zip offs doffs))"
  have li: "i < length ?nodes" using i lo by simp
  have "slice (layout e m fl offs doffs names d dtab) (32 + 16 * i + 0) (32 + 16 * i + 16)
        = slice (?nodes ! i) 0 16"
    unfolding layout_def by (rule slice_blocks) (use li in auto)
  also have "?nodes ! i = node_bytes e m (fl ! i, offs ! i, doffs ! i)"
    using i lo by simp
  also have "slice \<dots> 0 16 = node_bytes e m (fl ! i, offs ! i, doffs ! i)"
    by (simp add: slice_def)
  finally show ?thesis by simp
qed

lemma layout_length_ge:
  assumes lo: "length offs = length fl" "length doffs = length fl"
  shows "0x20 + 0x10 * length fl + 8 \<le> length (layout e m fl offs doffs names d dtab)"
proof -
  have "length (concat (map (node_bytes e m) (zip fl (zip offs doffs)))) = 16 * length fl"
    using lo by (subst length_concat_blocks [where k = 16]) auto
  then show ?thesis by (simp add: layout_def sfntHead_def magic_SFNT_def)
qed

lemma layout_read_nodes:
  assumes lo: "length offs = length fl" "length doffs = length fl"
    and q: "\<forall>i < length fl. int (offs ! i) div 4 < 2 ^ 24"
    and r: "\<forall>i < length fl. int (doffs ! i) + int (length (file_data (snd (fl ! i)))) < 2 ^ 32"
  shows "\<exists>ns. map_e (read_node e (layout e m fl offs doffs names d dtab))
                 (map (\<lambda>nodeNum. 0x20 + 0x10 * nodeNum) [0 ..< length fl]) = Inr ns
            \<and> length ns = length fl
            \<and> (\<forall>i < length fl. \<exists>flag. ns ! i = (flag, int (offs ! i) div 4, int (doffs ! i),
                                               int (length (file_data (snd (fl ! i))))))"
proof -
  let ?buf = "layout e m fl offs doffs names d dtab"
  have rd: "\<exists>flag. read_node e ?buf (0x20 + 0x10 * i)
              = Inr (flag, int (offs ! i) div 4, int (doffs ! i),
                     int (length (file_data (snd (fl ! i)))))"
    if i: "i < length fl" for i
  proof -
    have len: "0x20 + 0x10 * i + 16 \<le> length ?buf"
      using layout_length_ge [OF lo, of e m names d dtab] i by simp
    have node: "slice ?buf (0x20 + 0x10 * i) (0x20 + 0x10 * i + 16)
                = node_bytes e m ((fst (fl ! i), snd (fl ! i)), offs ! i, doffs ! i)"
      using layout_node_slice [OF lo i] by simp
    show ?thesis
      using read_node_eq [OF len node] q r i by simp
  qed
  have "\<forall>x \<in> set (map (\<lambda>nodeNum. 0x20 + 0x10 * nodeNum) [0 ..< length fl]).
          \<exists>y. read_node e ?buf x = Inr y"
  proof (rule ballI)
    fix x assume "x \<in> set (map (\<lambda>nodeNum. 0x20 + 0x10 * nodeNum) [0 ..< length fl])"
    then obtain i where "i < length fl" "x = 0x20 + 0x10 * i" by auto
    with rd show "\<exists>y. read_node e ?buf x = Inr y" by blast
  qed
  then obtain ns where ns: "map_e (read_node e ?buf)
                 (map (\<lambda>nodeNum. 0x20 + 0x10 * nodeNum) [0 ..< length fl]) = Inr ns"
    using map_e_returns by blast
  then have l2: "list_all2 (\<lambda>x y. read_node e ?buf x = Inr y)
                   (map (\<lambda>nodeNum. 0x20 + 0x10 * nodeNum) [0 ..< length fl]) ns"
    by (simp add: map_e_Inr)
  then have ln: "length ns = length fl" by (auto dest: list_all2_lengthD)
  have "\<exists>flag. ns ! i = (flag, int (offs ! i) div 4, int (doffs ! i),
                          int (length (file_data (snd (fl ! i)))))"
    if i: "i < length fl" for i
  proof -
    from list_all2_nthD [OF l2, of i] i
    have "read_node e ?buf (0x20 + 0x10 * i) = Inr (ns ! i)" by simp
    with rd [OF i] show ?thesis by auto
  qed
  with ns ln show ?thesis by blast
qed

lemma layout_sfnt:
  assumes lo: "length offs = length fl" "length doffs = length fl"
  shows "slice (layout e m fl offs doffs names d dtab) (0x20 + 0x10 * length fl)
            (0x20 + 0x10 * length fl + 0x04) = magic_SFNT"
    and "unpack_H e (slice (layout e m fl offs doffs names d dtab) (0x20 + 0x10 * length fl + 0x04)
            (0x20 + 0x10 * length fl + 0x06)) = Inr 0x08"
proof -
  let ?nodes = "map (node_bytes e m) (zip fl (zip offs doffs))"
  define pre where "pre = header_bytes e (d + int (length dtab)) d (length fl) m @ concat ?nodes"
  define rest where "rest = names
        @ replicate (nat (d - (0x28 + 0x10 * int (length fl) + int (length names)))) 0 @ dtab"
  have ln: "length (concat ?nodes) = 16 * length fl"
    using lo by (subst length_concat_blocks [where k = 16]) auto
  have lp: "length pre = 0x20 + 0x10 * length fl" by (simp add: pre_def ln)
  have b: "layout e m fl offs doffs names d dtab
           = pre @ magic_SFNT @ (if e = BigEndian then [0x00, 0x08] else [0x08, 0x00]) @ [0x00, 0x00] @ rest"
    by (simp add: layout_def pre_def rest_def sfntHead_def)
  show "slice (layout e m fl offs doffs names d dtab) (0x20 + 0x10 * length fl)
            (0x20 + 0x10 * length fl + 0x04) = magic_SFNT"
    unfolding b using lp by (simp add: slice_def magic_SFNT_def)
  show "unpack_H e (slice (layout e m fl offs doffs names d dtab) (0x20 + 0x10 * length fl + 0x04)
            (0x20 + 0x10 * length fl + 0x06)) = Inr 0x08"
    unfolding b using lp
    by (cases e) (simp_all add: slice_def magic_SFNT_def unpack_H_def order_bytes_def)
qed

lemma layout_name:
  assumes lo: "length offs = length fl" "length doffs = length fl"
    and n: "drop off names = enc @ 0 # rest" and z: "0 \<notin> set enc"
    and u: "utf8_decode enc = Inr p"
  shows "bytes_to_string (layout e m fl offs doffs names d dtab)
           (0x20 + 0x10 * length fl + 0x08 + off) = Inr p"
proof -
  let ?nodes = "map (node_bytes e m) (zip fl (zip offs doffs))"
  define pre where "pre = header_bytes e (d + int (length dtab)) d (length fl) m @ concat ?nodes
        @ sfntHead e"
  define tl' where "tl' = replicate (nat (d - (0x28 + 0x10 * int (length fl) + int (length names)))) 0 @ dtab"
  have ln: "length (concat ?nodes) = 16 * length fl"
    using lo by (subst length_concat_blocks [where k = 16]) auto
  have lp: "length pre = 0x20 + 0x10 * length fl + 0x08"
    by (simp add: pre_def ln sfntHead_def magic_SFNT_def)
  have b: "layout e m fl offs doffs names d dtab = pre @ names @ tl'"
    by (simp add: layout_def pre_def tl'_def)
  have ol: "off \<le> length names"
  proof (rule ccontr)
    assume "\<not> off \<le> length names"
    then have "drop off names = []" by simp
    with n show False by simp
  qed
  have "drop (0x20 + 0x10 * length fl + 0x08 + off) (pre @ names @ tl') = drop off (names @ tl')"
    using lp by simp
  also have "\<dots> = (enc @ 0 # rest) @ tl'"
    using ol n by simp
  finally have dr: "drop (0x20 + 0x10 * length fl + 0x08 + off) (pre @ names @ tl')
                   = enc @ 0 # (rest @ tl')" by simp
  have "takeWhile (\<lambda>b. b \<noteq> 0) (enc @ 0 # (rest @ tl')) = enc"
    using z by (induction enc) auto
  then show ?thesis
    unfolding bytes_to_string_def b dr using u by simp
qed

lemma layout_data:
  assumes lo: "length offs = length fl" "length doffs = length fl"
    and dl: "0x28 + 0x10 * int (length fl) + int (length names) \<le> d"
  shows "slice (layout e m fl offs doffs names d dtab) (nat (d + int st)) (nat (d + int st + int ln))
         = slice dtab st (st + ln)"
proof -
  have d0: "0 \<le> d" using dl by simp
  have a: "nat (d + int st) = st + nat d" "nat (d + int st + int ln) - nat (d + int st) = ln"
    using d0 by (simp_all add: nat_add_distrib)
  have "drop (st + nat d) (layout e m fl offs doffs names d dtab)
        = drop st (drop (nat d) (layout e m fl offs doffs names d dtab))"
    by (simp only: drop_drop)
  also have "\<dots> = drop st dtab"
    using save_layout_lengths(1) [OF dl lo] by simp
  finally have dr: "drop (st + nat d) (layout e m fl offs doffs names d dtab) = drop st dtab" .
  show ?thesis
    unfolding slice_def a(2) unfolding a(1) dr by simp
qed

lemma add_files_ok:
  assumes "list_all2 (\<lambda>node pd.
              bytes_to_string data (offset + nat (fst (snd node)) * 4) = Inr (fst pd)
              \<and> slice data (nat (ds + fst (snd (snd node))))
                    (nat (ds + fst (snd (snd node)) + snd (snd (snd node)))) = snd pd) ns pds"
  shows "\<exists>c. add_files data offset ds ns cur = (c, None)
             \<and> mset (paths_of_list c) = mset (paths_of_list cur) + mset pds"
  using assms
proof (induction ns pds arbitrary: cur rule: list_all2_induct)
  case Nil
  then show ?case by simp
next
  case (Cons node ns pd pds)
  obtain flag q st ln where node: "node = (flag, q, st, ln)" by (cases node)
  obtain p dat where pd: "pd = (p, dat)" by (cases pd)
  from Cons(1) node pd have
    b: "bytes_to_string data (offset + nat q * 4) = Inr p"
    and sl: "slice data (nat (ds + st)) (nat (ds + st + ln)) = dat"
    by simp_all
  from Cons.IH [of "insert_file (str_split 0x2F p) dat cur"] obtain c where
    c: "add_files data offset ds ns (insert_file (str_split 0x2F p) dat cur) = (c, None)"
    "mset (paths_of_list c)
       = mset (paths_of_list (insert_file (str_split 0x2F p) dat cur)) + mset pds"
    by blast
  have "mset (paths_of_list (insert_file (str_split 0x2F p) dat cur))
        = mset (paths_of_list cur) + {#(p, dat)#}"
    using insert_file_paths [of "str_split 0x2F p" dat cur] by (simp add: str_join_split)
  with c show ?case
    by (simp add: node pd b sl)
qed

lemma bom_endian: "(if bom e = [0xFE, 0xFF] then BigEndian else LittleEndian) = e"
  by (cases e) (simp_all add: bom_def)

lemma bom_valid: "\<not> (bom e \<noteq> [0xFE, 0xFF] \<and> bom e \<noteq> [0xFF, 0xFE])"
  by (cases e) (simp_all add: bom_def)

lemma load_layout_header:
  assumes lo: "length offs = length fl" "length doffs = length fl"
    and dl: "0x28 + 0x10 * int (length fl) + int (length names) \<le> d"
    and r: "d + int (length dtab) < 2 ^ 32"
  shows "load' a0 (layout e m fl offs doffs names d dtab)
         = load_tables (a0\<lparr>endianness := e\<rparr>) (layout e m fl offs doffs names d dtab) d"
proof -
  let ?buf = "layout e m fl offs doffs names d dtab"
  have d0: "0 \<le> d" "d < 2 ^ 32" using dl r by simp_all
  have lb: "int (length ?buf) = d + int (length dtab)"
    using save_layout_lengths(2) [OF dl lo] .
  have s1: "slice ?buf 0 0x04 = magic_SARC"
    unfolding layout_def by (rule header_fields)
  have s2: "slice ?buf 0x06 0x08 = bom e"
    unfolding layout_def by (rule header_fields)
  have s3: "unpack_H e (slice ?buf 0x04 0x06) = Inr 0x14"
    unfolding layout_def header_fields by (simp add: unpack_H_le_bytes2)
  have s4: "unpack_I e (slice ?buf 0x08 0x0C) = Inr (d + int (length dtab))"
    unfolding layout_def header_fields using d0 r by (simp add: unpack_I_le_bytes4)
  have s5: "unpack_I e (slice ?buf 0x0C 0x10) = Inr d"
    unfolding layout_def header_fields using d0 by (simp add: unpack_I_le_bytes4)
  show ?thesis
    unfolding load'_def Let_def s1 s2 bom_endian s3 s4 s5 sum.case lb
    using bom_valid [of e] by auto
qed

lemma load_layout_tables:
  assumes lo: "length offs = length fl" "length doffs = length fl"
    and n16: "length fl < 2 ^ 16" and mr: "0 \<le> m" "m < 2 ^ 32"
    and ns: "map_e (read_node e (layout e m fl offs doffs names d dtab))
                 (map (\<lambda>nodeNum. 0x20 + 0x10 * nodeNum) [0 ..< length fl]) = Inr ns"
    and af: "add_files (layout e m fl offs doffs names d dtab) (0x20 + 0x10 * length fl + 0x08) d ns []
             = (c, None)"
  shows "load_tables (a0\<lparr>endianness := e\<rparr>) (layout e m fl offs doffs names d dtab) d
         = (a0\<lparr>endianness := e, hashMultiplier := m, contents := c\<rparr>, Inr 0)"
proof -
  let ?buf = "layout e m fl offs doffs names d dtab"
  have e: "endianness (a0\<lparr>endianness := e\<rparr>) = e" by simp
  have s6: "slice ?buf 0x14 0x18 = magic_SFAT"
    unfolding layout_def by (rule header_fields)
  have s7: "unpack_H e (slice ?buf 0x18 0x1A) = Inr 0x0C"
    unfolding layout_def header_fields by (simp add: unpack_H_le_bytes2)
  have s8: "unpack_H e (slice ?buf 0x1A 0x1C) = Inr (int (length fl))"
    unfolding layout_def header_fields using n16 by (simp add: unpack_H_le_bytes2)
  have s9: "unpack_I e (slice ?buf 0x1C 0x20) = Inr m"
    unfolding layout_def header_fields using mr by (simp add: unpack_I_le_bytes4)
  show ?thesis
    unfolding load_tables_def Let_def e s6 s7 s8 s9 sum.case nat_int ns
      layout_sfnt(1) [OF lo] layout_sfnt(2) [OF lo] af
    by simp
qed


subsection \<open>The round trip\<close>

lemma data_loop_offsets_end:
  assumes "data_loop al files idx tbl = (doffs, t)"
  shows "length tbl \<le> length t
       \<and> list_all2 (\<lambda>f off. off + length (file_data f) \<le> length t) files doffs"
  using assms
proof (induction files arbitrary: idx tbl doffs)
  case Nil
  then show ?case by simp
next
  case (Cons f files)
  define t1 where "t1 = (if idx > 0
                then tbl @ replicate (nat (round_up (int (length tbl)) al - int (length tbl))) 0
                else tbl)"
  from Cons.prems obtain offs' where
    rec: "data_loop al files (idx + 1) (t1 @ file_data f) = (offs', t)"
    and offs: "doffs = length t1 # offs'"
    by (auto simp add: Let_def t1_def split: prod.splits)
  from Cons.IH [OF rec] have "length (t1 @ file_data f) \<le> length t"
    "list_all2 (\<lambda>f off. off + length (file_data f) \<le> length t) files offs'" by simp_all
  moreover have "length tbl \<le> length t1" by (simp add: t1_def)
  ultimately show ?case unfolding offs by auto
qed

lemma sfat_node_returns:
  assumes "int no div 4 < 2 ^ 24" and "int doff + int (length (file_data f)) < 2 ^ 32"
  shows "\<exists>y. sfat_node e m ((p, f), no, doff) = Inr y"
proof -
  have "0 \<le> int no div 4" by simp
  from or_flag [OF this assms(1)] assms(1)
  have "0 \<le> (int no div 4) OR 0x1000000" "(int no div 4) OR 0x1000000 < 2 ^ 32"
    by simp_all
  then show ?thesis
    using assms(2)
    by (simp add: sfat_node_def bind_e_def filenameHash_Inr pack_I_def)
qed

lemma sfat_nodes_returns:
  assumes lo: "length offs = length fl" "length doffs = length fl"
    and q: "\<forall>i < length fl. int (offs ! i) div 4 < 2 ^ 24"
    and r: "\<forall>i < length fl. int (doffs ! i) + int (length (file_data (snd (fl ! i)))) < 2 ^ 32"
  shows "\<exists>sfat. sfat_nodes e m fl offs doffs = Inr sfat"
proof -
  have "\<forall>x \<in> set (zip fl (zip offs doffs)). \<exists>y. sfat_node e m x = Inr y"
  proof (rule ballI)
    fix x assume "x \<in> set (zip fl (zip offs doffs))"
    then obtain i where i: "i < length fl" "x = (fl ! i, offs ! i, doffs ! i)"
      using lo by (auto simp add: set_zip)
    obtain p f where pf: "fl ! i = (p, f)" by (cases "fl ! i")
    have "int (offs ! i) div 4 < 2 ^ 24" using q i(1) by blast
    moreover have "int (doffs ! i) + int (length (file_data f)) < 2 ^ 32"
      using r i(1) pf by force
    ultimately show "\<exists>y. sfat_node e m x = Inr y"
      unfolding i(2) pf by (rule sfat_node_returns)
  qed
  then obtain nodes where "map_e (sfat_node e m) (zip fl (zip offs doffs)) = Inr nodes"
    using map_e_returns by blast
  then show ?thesis by (simp add: sfat_nodes_def bind_e_def)
qed

lemma assemble_returns:
  assumes "0 \<le> d" "d + int (length dtab) < 2 ^ 32" "length fl < 2 ^ 16" "0 \<le> m" "m < 2 ^ 32"
    and sf: "sfat_nodes e m fl offs doffs = Inr sfat"
  shows "\<exists>buf. assemble e m fl offs names d doffs dtab = Inr buf"
  using assms
  by (simp add: assemble_def sarcHead_def sfatHead_def bind_e_def pack_I_def pack_H_def Let_def)

lemma assemble_eq_layout:
  assumes asm: "assemble e m fl offs names d doffs dtab = Inr buf"
    and lo: "length offs = length fl" "length doffs = length fl"
  shows "buf = layout e m fl offs doffs names d dtab"
proof -
  from assemble_layout [OF asm] obtain sfat where
    s: "sfat_nodes e m fl offs doffs = Inr sfat"
    and b: "buf = magic_SARC @ order_bytes e (le_bytes2 0x14) @ bom e
              @ order_bytes e (le_bytes4 (d + int (length dtab)))
              @ order_bytes e (le_bytes4 d) @ marker e
              @ magic_SFAT @ order_bytes e (le_bytes2 0x0C)
              @ order_bytes e (le_bytes2 (int (length fl)))
              @ order_bytes e (le_bytes4 m)
              @ sfat @ sfntHead e @ names
              @ replicate (nat (d - (0x28 + int (length sfat) + int (length names)))) 0
              @ dtab"
    by blast
  have sf: "sfat = concat (map (node_bytes e m) (zip fl (zip offs doffs)))"
    using s by (rule sfat_nodes_Inr)
  have ls: "length sfat = 16 * length fl"
    unfolding sf using lo
    by (subst length_concat_blocks [where k = 16]) auto
  show ?thesis
    by (simp add: b layout_def header_bytes_def ls sf [symmetric])
qed

lemma roundtrip_tables:
  assumes lo: "length offs = length fl" "length doffs = length fl"
    and dl: "0x28 + 0x10 * int (length fl) + int (length names) \<le> d"
    and tot: "d + int (length dtab) < 2 ^ 32"
    and n16: "length fl < 2 ^ 16" and mr: "0 \<le> m" "m < 2 ^ 32"
    and o26: "\<forall>off \<in> set offs. off < 2 ^ 26"
    and wfp: "\<forall>x \<in> set fl. wf_name (fst x)"
    and nm: "list_all2 (\<lambda>x off. 4 dvd off \<and> (\<exists>enc rest. utf8_encode (fst x) = Inr enc
                                      \<and> drop off names = enc @ 0 # rest)) fl offs"
    and dt: "list_all2 (\<lambda>f off. slice dtab off (off + length (file_data f)) = file_data f)
               (map snd fl) doffs"
    and de: "list_all2 (\<lambda>f off. off + length (file_data f) \<le> length dtab) (map snd fl) doffs"
  shows "\<exists>c. load' a0 (layout e m fl offs doffs names d dtab)
               = (a0\<lparr>endianness := e, hashMultiplier := m, contents := c\<rparr>, Inr 0)
             \<and> mset (paths_of_list c) = mset (map (\<lambda>x. (fst x, file_data (snd x))) fl)"
proof -
  let ?buf = "layout e m fl offs doffs names d dtab"
  let ?n = "length fl"
  have d0: "0 \<le> d" using dl by simp
  have q: "\<forall>i < ?n. int (offs ! i) div 4 < 2 ^ 24"
  proof (intro allI impI)
    fix i assume "i < ?n"
    then have "offs ! i < 2 ^ 26" using o26 lo by simp
    then show "int (offs ! i) div 4 < 2 ^ 24" by simp
  qed
  have r: "\<forall>i < ?n. int (doffs ! i) + int (length (file_data (snd (fl ! i)))) < 2 ^ 32"
  proof (intro allI impI)
    fix i assume i: "i < ?n"
    from list_all2_nthD [OF de, of i] i
    have "doffs ! i + length (file_data (snd (fl ! i))) \<le> length dtab" by simp
    then show "int (doffs ! i) + int (length (file_data (snd (fl ! i)))) < 2 ^ 32"
      using tot d0 by simp
  qed
  from layout_read_nodes [OF lo q r, of e m names d dtab] obtain ns where
    ns: "map_e (read_node e ?buf) (map (\<lambda>nodeNum. 0x20 + 0x10 * nodeNum) [0 ..< ?n]) = Inr ns"
    and lns: "length ns = ?n"
    and nsi: "\<forall>i < ?n. \<exists>flag. ns ! i = (flag, int (offs ! i) div 4, int (doffs ! i),
                                        int (length (file_data (snd (fl ! i)))))"
    by blast
  let ?pds = "map (\<lambda>x. (fst x, file_data (snd x))) fl"
  have "list_all2 (\<lambda>node pd.
              bytes_to_string ?buf (0x20 + 0x10 * ?n + 0x08 + nat (fst (snd node)) * 4) = Inr (fst pd)
              \<and> slice ?buf (nat (d + fst (snd (snd node))))
                    (nat (d + fst (snd (snd node)) + snd (snd (snd node)))) = snd pd) ns ?pds"
  proof (rule list_all2_all_nthI)
    show "length ns = length ?pds" using lns by simp
  next
    fix i assume "i < length ns"
    then have i: "i < ?n" using lns by simp
    from nsi i obtain flag where
      ni: "ns ! i = (flag, int (offs ! i) div 4, int (doffs ! i),
                     int (length (file_data (snd (fl ! i)))))" by blast
    from list_all2_nthD [OF nm, of i] i obtain enc rest where
      o4: "4 dvd offs ! i" and ue: "utf8_encode (fst (fl ! i)) = Inr enc"
      and dr: "drop (offs ! i) names = enc @ 0 # rest"
      by auto
    have wfi: "wf_name (fst (fl ! i))" using wfp i by simp
    from wf_name_encodable [OF wfi] have
      ec: "\<forall>c \<in> set (fst (fl ! i)). encodable_char c" and nz: "0 \<notin> set (fst (fl ! i))"
      by simp_all
    from utf8_roundtrip [OF ec, of "[]"] ue nz have
      ud: "utf8_dec (map unat enc) = Some (fst (fl ! i))" and ez: "0 \<notin> set enc"
      by auto
    have udec: "utf8_decode enc = Inr (fst (fl ! i))"
      by (simp add: utf8_decode_def ud)
    have o: "nat (int (offs ! i) div 4) * 4 = offs ! i"
      using o4 by (auto simp add: nat_div_distrib)
    have b: "bytes_to_string ?buf (0x20 + 0x10 * ?n + 0x08 + offs ! i) = Inr (fst (fl ! i))"
      using lo dr ez udec by (rule layout_name)
    have "slice ?buf (nat (d + int (doffs ! i)))
            (nat (d + int (doffs ! i) + int (length (file_data (snd (fl ! i))))))
          = slice dtab (doffs ! i) (doffs ! i + length (file_data (snd (fl ! i))))"
      using lo dl by (rule layout_data)
    also have "\<dots> = file_data (snd (fl ! i))"
      using list_all2_nthD [OF dt, of i] i by simp
    finally have sl: "slice ?buf (nat (d + int (doffs ! i)))
            (nat (d + int (doffs ! i) + int (length (file_data (snd (fl ! i))))))
          = file_data (snd (fl ! i))" .
    show "bytes_to_string ?buf (0x20 + 0x10 * ?n + 0x08 + nat (fst (snd (ns ! i))) * 4)
              = Inr (fst (?pds ! i))
          \<and> slice ?buf (nat (d + fst (snd (snd (ns ! i)))))
                (nat (d + fst (snd (snd (ns ! i))) + snd (snd (snd (ns ! i))))) = snd (?pds ! i)"
      using i b sl by (simp add: ni o)
  qed
  from add_files_ok [OF this, of "[]"] obtain c where
    af: "add_files ?buf (0x20 + 0x10 * ?n + 0x08) d ns [] = (c, None)"
    and ms: "mset (paths_of_list c) = mset ?pds"
    by auto
  have "load' a0 ?buf = load_tables (a0\<lparr>endianness := e\<rparr>) ?buf d"
    using lo dl tot by (rule load_layout_header)
  also have "\<dots> = (a0\<lparr>endianness := e, hashMultiplier := m, contents := c\<rparr>, Inr 0)"
    using lo n16 mr ns af by (rule load_layout_tables)
  finally show ?thesis using ms by blast
qed

text \<open>
  Claim C1, amended. Take any tree whose names hold no NUL and only code points that
  UTF-8 encodes, and whose folder names are not empty, hold no backslash and do not end
  in a slash, in an archive of either endianness with a hash multiplier from 0 to
  \<open>2^32 - 1\<close>. The encoder's tables exist: the flat list (one pair per file of the tree),
  the name table with its offsets, the data start offset, the alignment (the loop
  returns) and the data table. If there are fewer than \<open>2^16\<close> files, every name offset
  is below \<open>2^26\<close> and the total length is below \<open>2^32\<close>, then \<^verbatim>\<open>save\<close> returns a
  buffer of that total length, and \<^verbatim>\<open>_load\<close> of that buffer, on any archive object,
  returns 0 and leaves the archive's endianness and multiplier with contents whose
  full slash-delimited paths and payloads are, as a multiset of pairs, those of the
  tree. No uniqueness of names is needed for this.
\<close>

theorem save_load_roundtrip:
  assumes wf: "wf_entries (contents a)"
    and mr: "0 \<le> hashMultiplier a" "hashMultiplier a < 2 ^ 32"
  shows "\<exists>fl0 fl offs names d al doffs dtab.
           flatten_root (contents a) = Inr fl0
         \<and> sort_flatList (endianness a) (hashMultiplier a) fl0 = Inr fl
         \<and> names_loop fl [] = Inr (offs, names)
         \<and> d = spec_dataStartOffset (int (length fl)) (int (length names)) arg
         \<and> get_alignment d = Some al
         \<and> data_loop al (map snd fl) 0 [] = (doffs, dtab)
         \<and> length fl = length (paths_of_list (contents a))
         \<and> (length fl < 2 ^ 16 \<and> d + int (length dtab) < 2 ^ 32
              \<and> (\<forall>off \<in> set offs. off < 2 ^ 26) \<longrightarrow>
              (\<exists>buf c. save a arg = Some (Inr buf)
                 \<and> int (length buf) = d + int (length dtab)
                 \<and> load' a0 buf
                     = (a0\<lparr>endianness := endianness a, hashMultiplier := hashMultiplier a,
                           contents := c\<rparr>, Inr 0)
                 \<and> mset (paths_of_list c) = mset (paths_of_list (contents a))))"
proof -
  define e where "e = endianness a"
  define m where "m = hashMultiplier a"
  define fl0 where "fl0 = flat_of (contents a)"
  define fl where "fl = sort_key (\<lambda>x. spec_hash (fst x) m) fl0"
  have f: "flatten_root (contents a) = Inr fl0"
    unfolding fl0_def using wf by (rule flatten_root_flat_of)
  have srt: "sort_flatList e m fl0 = Inr fl"
    by (simp add: sort_flatList_Inr fl_def)
  have wfp: "\<forall>x \<in> set fl. wf_name (fst x)"
    using wf_flat_of [OF wf] by (auto simp add: fl_def fl0_def)
  then obtain offs names where n: "names_loop fl [] = Inr (offs, names)"
    using names_loop_exists by blast
  define d where "d = choose_dataStartOffset (length fl) (length names) arg"
  have ds: "d = spec_dataStartOffset (int (length fl)) (int (length names)) arg"
    by (simp add: d_def choose_dataStartOffset_eq_spec)
  have dl: "0x28 + 0x10 * int (length fl) + int (length names) \<le> d"
    unfolding d_def by (rule choose_dataStartOffset_bounds)
  then have "16 \<le> d" by simp
  then obtain al where al: "get_alignment d = Some al"
    using get_alignment_returns by blast
  obtain doffs dtab where dlp: "data_loop al (map snd fl) 0 [] = (doffs, dtab)"
    by (cases "data_loop al (map snd fl) 0 []")
  have sv: "save a arg = Some (assemble e m fl offs names d doffs dtab)"
    by (simp add: save_def f e_def [symmetric] m_def [symmetric] srt n d_def [symmetric] al dlp)
  have lo: "length offs = length fl" using n by (rule names_loop_length)
  have ld: "length doffs = length fl" using data_loop_length [OF dlp] by simp
  have lfl: "length fl = length (paths_of_list (contents a))"
    using arg_cong [OF paths_of_flat_of [of "contents a"], of length]
    by (simp add: fl_def fl0_def)
  have ms: "mset (map (\<lambda>x. (fst x, file_data (snd x))) fl) = mset (paths_of_list (contents a))"
  proof -
    have "mset fl = mset fl0" by (simp add: fl_def)
    then have "mset (map (\<lambda>x. (fst x, file_data (snd x))) fl)
               = mset (map (\<lambda>x. (fst x, file_data (snd x))) fl0)"
      by (simp only: mset_map)
    also have "map (\<lambda>x. (fst x, file_data (snd x))) fl0 = paths_of_list (contents a)"
      using paths_of_flat_of [of "contents a"] by (simp add: fl0_def split_def)
    finally show ?thesis .
  qed
  have rt: "\<exists>buf c. save a arg = Some (Inr buf)
                 \<and> int (length buf) = d + int (length dtab)
                 \<and> load' a0 buf
                     = (a0\<lparr>endianness := e, hashMultiplier := m, contents := c\<rparr>, Inr 0)
                 \<and> mset (paths_of_list c) = mset (paths_of_list (contents a))"
    if n16: "length fl < 2 ^ 16" and tot: "d + int (length dtab) < 2 ^ 32"
      and o26: "\<forall>off \<in> set offs. off < 2 ^ 26"
  proof -
    have d0: "0 \<le> d" using dl by simp
    from names_loop_structure [OF n] have
      nm: "list_all2 (\<lambda>x off. 4 dvd off \<and> (\<exists>enc rest. utf8_encode (fst x) = Inr enc
                                      \<and> drop off names = enc @ 0 # rest)) fl offs"
      by simp
    from data_loop_structure [OF dlp] have
      dt: "list_all2 (\<lambda>f off. slice dtab off (off + length (file_data f)) = file_data f)
               (map snd fl) doffs" by simp
    from data_loop_offsets_end [OF dlp] have
      de: "list_all2 (\<lambda>f off. off + length (file_data f) \<le> length dtab) (map snd fl) doffs"
      by simp
    have q: "\<forall>i < length fl. int (offs ! i) div 4 < 2 ^ 24"
    proof (intro allI impI)
      fix i assume "i < length fl"
      then have "offs ! i < 2 ^ 26" using o26 lo by simp
      then show "int (offs ! i) div 4 < 2 ^ 24" by simp
    qed
    have r: "\<forall>i < length fl. int (doffs ! i) + int (length (file_data (snd (fl ! i)))) < 2 ^ 32"
    proof (intro allI impI)
      fix i assume i: "i < length fl"
      from list_all2_nthD [OF de, of i] i ld
      have "doffs ! i + length (file_data (snd (fl ! i))) \<le> length dtab" by simp
      then show "int (doffs ! i) + int (length (file_data (snd (fl ! i)))) < 2 ^ 32"
        using tot d0 by simp
    qed
    from sfat_nodes_returns [OF lo ld q r, of e m] obtain sfat where
      sf: "sfat_nodes e m fl offs doffs = Inr sfat" by blast
    from assemble_returns [OF d0 tot n16 mr [folded m_def] sf] obtain buf where
      asm: "assemble e m fl offs names d doffs dtab = Inr buf" by blast
    have bl: "buf = layout e m fl offs doffs names d dtab"
      using asm lo ld by (rule assemble_eq_layout)
    have lb: "int (length buf) = d + int (length dtab)"
      unfolding bl using save_layout_lengths(2) [OF dl lo ld] .
    from roundtrip_tables [OF lo ld dl tot n16 mr [folded m_def] o26 wfp nm dt de, of a0 e]
    obtain c where
      "load' a0 buf = (a0\<lparr>endianness := e, hashMultiplier := m, contents := c\<rparr>, Inr 0)"
      "mset (paths_of_list c) = mset (map (\<lambda>x. (fst x, file_data (snd x))) fl)"
      unfolding bl by blast
    with sv asm lb ms show ?thesis by auto
  qed
  show ?thesis
    unfolding e_def [symmetric] m_def [symmetric]
    apply (rule exI [of _ fl0], rule exI [of _ fl], rule exI [of _ offs], rule exI [of _ names])
    apply (rule exI [of _ d], rule exI [of _ al], rule exI [of _ doffs], rule exI [of _ dtab])
    apply (intro conjI impI)
           apply (rule f [unfolded e_def [symmetric]])
          apply (rule srt)
         apply (rule n)
        apply (rule ds)
       apply (rule al)
      apply (rule dlp)
     apply (rule lfl)
    apply (erule conjE)+
    apply (rule rt)
      apply assumption+
    done
qed


end
